theory Spec2Isabelle
  imports Complex_Main "HOL-Library.Log_Nat"
begin

section \<open>Data model\<close>

text \<open>
  The gallery is one React effect whose closure variables are the program's state.
  Counters, offsets and millisecond timestamps are \<open>int\<close>, photo dimensions and scene
  coordinates are \<open>rat\<close>. Where the result of the code's arithmetic depends on rounding
  (the progress percentage and the page wrap-around) the operations are those of IEEE
  doubles, defined below; the plane geometry is computed exactly. A field that the JSON
  payload may lack is an \<open>option\<close>.
\<close>

record MicroCMSImage =
  url :: string
  height :: "rat option"
  width :: "rat option"

record WorkItem =
  work_id :: string
  title :: "string option"
  body :: "string option"
  shootingdate :: "string option"
  photo :: "MicroCMSImage option"

record MicroCMSResponse =
  contents :: "WorkItem list option"
  resTotalCount :: "int option"

text \<open>A Babylon plane mesh, reduced to the attributes the gallery code writes.\<close>

record Mesh =
  meshWidth :: rat
  meshHeight :: rat
  posX :: rat
  posY :: rat
  posZ :: rat
  rotatedHalfTurn :: bool
  enabled :: bool

text \<open>
  \<open>PhotoEntry\<close>: the four planes of a slot, what its material and caption texture were
  painted from, and the rest depth \<open>originalZ\<close>.
\<close>

record PhotoEntry =
  photoPlane :: Mesh
  whiteFramePlane :: Mesh
  blackFramePlane :: Mesh
  textPlane :: Mesh
  matUrl :: string
  captionTitle :: string
  captionBody :: string
  captionDate :: "string option"
  originalZ :: rat

text \<open>The progress overlay: the number shown in its text and the width of its bar.\<close>

record overlay_ui =
  remainingText :: int
  barPercent :: int

text \<open>A completion handle returned by \<open>registerAsset\<close>: the inert closure or the counting one.\<close>

datatype handle = NoOp | Done string

record gallery =
  sceneDisposed :: bool
  photoEntries :: "PhotoEntry option list"
  pageOffset :: int
  totalCount :: int
  totalAssets :: int
  loadedAssets :: int
  loadingOverlay :: "overlay_ui option"
  loadingOverlayShownAt :: int
  registeredAssetKeys :: "string set"
  hideTimers :: "int list"
  textureHandles :: "handle list"

datatype direction = Forward | Backward

fun dirVal :: "direction \<Rightarrow> int" where
  "dirVal Forward = 1"
| "dirVal Backward = - 1"

section \<open>IEEE double arithmetic\<close>

text \<open>
  A JavaScript number is a binary64 value. A finite one is a rational, and an arithmetic
  operation yields the exact result rounded to the nearest double, a tie going to the
  even significand. \<open>expo x\<close> is the exponent \<open>e\<close> with \<open>2 ^ e \<le> |x| < 2 ^ (e + 1)\<close>, computed from
  bit lengths; below the normal range the spacing of the doubles stays that of exponent
  \<open>- 1022\<close>. Overflow to infinity is not modelled: \<open>fl\<close> is the rounding of JavaScript for
  magnitudes below \<open>2 ^ 1024\<close>. A whole number of the model stands for the double of
  that value; every whole number of magnitude up to \<open>2 ^ 53\<close> is one.
\<close>

definition pow2 :: "int \<Rightarrow> rat" where
  "pow2 k = (if 0 \<le> k then 2 ^ nat k else 1 / 2 ^ nat (- k))"

definition expo :: "rat \<Rightarrow> int" where
  "expo x =
     (let a = \<bar>x\<bar>
      in if 1 \<le> a then bitlen \<lfloor>a\<rfloor> - 1 else - bitlen (\<lceil>1 / a\<rceil> - 1))"

definition roundEven :: "rat \<Rightarrow> int" where
  "roundEven y =
     (let f = \<lfloor>y\<rfloor>; d = y - of_int f
      in if d < 1 / 2 then f else if 1 / 2 < d then f + 1 else if even f then f else f + 1)"

definition fl :: "rat \<Rightarrow> rat" where
  "fl x =
     (if x = 0 then 0
      else (let u = pow2 (max (expo x) (- 1022) - 52) in of_int (roundEven (x / u)) * u))"

definition jsAdd :: "rat \<Rightarrow> rat \<Rightarrow> rat" where
  "jsAdd a b = fl (a + b)"

definition jsSub :: "rat \<Rightarrow> rat \<Rightarrow> rat" where
  "jsSub a b = fl (a - b)"

definition jsMul :: "rat \<Rightarrow> rat \<Rightarrow> rat" where
  "jsMul a b = fl (a * b)"

definition jsDiv :: "rat \<Rightarrow> rat \<Rightarrow> rat" where
  "jsDiv a b = fl (a / b)"

section \<open>Asset registry\<close>

definition loadingOverlayMinMs :: int where
  "loadingOverlayMinMs = 300"

text \<open>\<open>Math.round\<close> of a double: the nearest integer, a tie going up; it does not round twice.\<close>

definition jsRound :: "rat \<Rightarrow> int" where
  "jsRound x = \<lfloor>x + 1 / 2\<rfloor>"

definition createLoadingOverlay :: "int \<Rightarrow> gallery \<Rightarrow> gallery" where
  "createLoadingOverlay now st =
     (if loadingOverlay st \<noteq> None then st
      else st\<lparr>loadingOverlay := Some \<lparr>remainingText = 100, barPercent = 0\<rparr>,
              loadingOverlayShownAt := now\<rparr>)"

text \<open>
  \<open>Math.round ((loadedAssets / totalAssets) * 100)\<close>: the quotient is rounded to a double,
  and so is its product with 100.
\<close>

definition percentOf :: "gallery \<Rightarrow> int" where
  "percentOf st =
     (if totalAssets st = 0 then 0
      else jsRound (jsMul (jsDiv (of_int (loadedAssets st)) (of_int (totalAssets st))) 100))"

text \<open>\<open>hideNow\<close>, the body of the timer that \<open>updateLoadingOverlay\<close> arms.\<close>

definition hideNow :: "gallery \<Rightarrow> gallery" where
  "hideNow st = st\<lparr>loadingOverlay := None, loadingOverlayShownAt := 0\<rparr>"

text \<open>
  \<open>updateLoadingOverlay\<close> at clock reading \<open>now\<close>. The stuck-progress bookkeeping only
  logs and is left out. \<open>setTimeout (hideNow, waitMs + 220)\<close> is recorded as the time at
  which the timer fires.
\<close>

definition updateLoadingOverlay :: "int \<Rightarrow> gallery \<Rightarrow> gallery" where
  "updateLoadingOverlay now st =
     (case loadingOverlay st of
        None \<Rightarrow> st
      | Some ov \<Rightarrow>
          (let percent = percentOf st;
               remaining = 100 - percent;
               st1 = st\<lparr>loadingOverlay := Some \<lparr>remainingText = remaining, barPercent = percent\<rparr>\<rparr>
           in if totalAssets st > 0 \<and> loadedAssets st \<ge> totalAssets st
              then (let elapsed = now - loadingOverlayShownAt st;
                        waitMs = max 0 (loadingOverlayMinMs - elapsed)
                    in st1\<lparr>hideTimers := hideTimers st1 @ [now + (waitMs + 220)]\<rparr>)
              else st1))"

text \<open>A pending hide timer fires: it is removed from the pending timers and runs \<open>hideNow\<close>.\<close>

definition fireHideTimer :: "int \<Rightarrow> gallery \<Rightarrow> gallery option" where
  "fireHideTimer t st =
     (if t \<in> set (hideTimers st)
      then Some (hideNow (st\<lparr>hideTimers := remove1 t (hideTimers st)\<rparr>))
      else None)"

text \<open>
  \<open>key || `asset:${Math.random ()...}`\<close>: a missing or empty key is falsy and replaced by a
  random one; \<open>rnd\<close> is what the random generator yields at this call.
\<close>

definition keyOrRandom :: "string \<Rightarrow> string option \<Rightarrow> string" where
  "keyOrRandom rnd key =
     (case key of
        None \<Rightarrow> ''asset:'' @ rnd
      | Some k \<Rightarrow> if k = [] then ''asset:'' @ rnd else k)"

definition registerAsset :: "int \<Rightarrow> string \<Rightarrow> string option \<Rightarrow> gallery \<Rightarrow> handle \<times> gallery" where
  "registerAsset now rnd key st =
     (let isNewSession = (loadingOverlay st = None);
          s0 = (if isNewSession
                then st\<lparr>totalAssets := 0, loadedAssets := 0, registeredAssetKeys := {}\<rparr>
                else st);
          k = keyOrRandom rnd key
      in if k \<in> registeredAssetKeys s0
         then (NoOp, updateLoadingOverlay now (createLoadingOverlay now s0))
         else (Done k,
               updateLoadingOverlay now (createLoadingOverlay now
                 (s0\<lparr>totalAssets := totalAssets s0 + 1,
                     registeredAssetKeys := insert k (registeredAssetKeys s0)\<rparr>))))"

text \<open>Calling a completion handle.\<close>

fun invoke :: "int \<Rightarrow> handle \<Rightarrow> gallery \<Rightarrow> gallery" where
  "invoke now NoOp st = st"
| "invoke now (Done k) st = updateLoadingOverlay now (st\<lparr>loadedAssets := loadedAssets st + 1\<rparr>)"

section \<open>Page arithmetic\<close>

text \<open>
  The offset that \<open>pageSlide\<close> passes to \<open>loadPhotos\<close>, every operation in double
  arithmetic: \<open>pageOffset + 3 * direction\<close>, and on the way back past zero
  \<open>Math.floor ((totalCount - 1) / 3) * 3\<close>. The values are whole numbers.
\<close>

definition nextOffset :: "int \<Rightarrow> int \<Rightarrow> direction \<Rightarrow> int" where
  "nextOffset pOffset tCount direction =
     (let n = jsAdd (of_int pOffset) (jsMul 3 (of_int (dirVal direction)))
      in if n < 0
         then (let maxPageStart = jsMul (of_int \<lfloor>jsDiv (jsSub (of_int tCount) 1) 3\<rfloor>) 3
               in \<lfloor>maxPageStart\<rfloor>)
         else if of_int tCount \<le> n then 0
         else \<lfloor>n\<rfloor>)"

section \<open>Slot manager\<close>

text \<open>
  Reading and writing \<open>photoEntries[index]\<close> as JavaScript does: a read past the end
  yields \<open>undefined\<close> (falsy, like \<open>null\<close>), a write past the end extends the array and
  leaves holes, which every reader treats like \<open>null\<close>.
\<close>

definition jsGet :: "'a option list \<Rightarrow> nat \<Rightarrow> 'a option" where
  "jsGet xs i = (if i < length xs then xs ! i else None)"

definition jsSet :: "'a option list \<Rightarrow> nat \<Rightarrow> 'a option \<Rightarrow> 'a option list" where
  "jsSet xs i v =
     (if i < length xs then xs[i := v]
      else xs @ replicate (i - length xs) None @ [v])"

text \<open>\<open>x || 1\<close> on a possibly missing number.\<close>

definition orOne :: "rat option \<Rightarrow> rat" where
  "orOne v = (case v of None \<Rightarrow> 1 | Some x \<Rightarrow> if x = 0 then 1 else x)"

definition imgW :: "WorkItem \<Rightarrow> rat" where
  "imgW work = orOne (case photo work of None \<Rightarrow> None | Some p \<Rightarrow> width p)"

definition imgH :: "WorkItem \<Rightarrow> rat" where
  "imgH work = orOne (case photo work of None \<Rightarrow> None | Some p \<Rightarrow> height p)"

definition aspect :: "WorkItem \<Rightarrow> rat" where
  "aspect work = imgW work / imgH work"

text \<open>\<open>(planeW, planeH)\<close> as \<open>createOrUpdateEntry\<close> computes them, halving included.\<close>

definition planeSize :: "WorkItem \<Rightarrow> rat \<times> rat" where
  "planeSize work =
     (let a = aspect work;
          (planeW, planeH) = (if a < 1 then (1, 1 / a) else (1 * a, 1))
      in (planeW * (1 / 2), planeH * (1 / 2)))"

text \<open>
  The size \<open>(aw, ah)\<close> of the two navigation arrows, computed in \<open>arrowImg.onload\<close> from the
  natural size of the icon.
\<close>

definition arrowSize :: "rat \<Rightarrow> rat \<Rightarrow> rat \<times> rat" where
  "arrowSize naturalWidth naturalHeight =
     (let iw = orOne (Some naturalWidth);
          ih = orOne (Some naturalHeight);
          a = iw / ih;
          size = 8 / 10
      in if a \<ge> 1 then (size, size / a) else (size * a, size))"

datatype error = TypeError

text \<open>
  \<open>registerTexture (tex, key)\<close> for a Babylon texture, whose name is the url it was made
  from: the key falls back to a random one when the url is empty, and the completion
  handle waits for the texture's load event.
\<close>

definition registerTexture :: "int \<Rightarrow> string \<Rightarrow> string \<Rightarrow> gallery \<Rightarrow> gallery" where
  "registerTexture now rnd key st =
     (let k = (if key = [] then ''tex:'' @ rnd else key);
          (done, st1) = registerAsset now rnd (Some k) st
      in st1\<lparr>textureHandles := textureHandles st1 @ [done]\<rparr>)"

definition zDirOf :: "nat \<Rightarrow> rat" where
  "zDirOf index = (if index < 2 then - 1 else 1)"

text \<open>
  The entity set \<open>createOrUpdateEntry\<close> builds for \<open>work\<close> at slot \<open>index\<close>. The date is
  kept as the string the caption's date is formatted from.
\<close>

definition newEntry :: "WorkItem \<Rightarrow> MicroCMSImage \<Rightarrow> nat \<Rightarrow> PhotoEntry" where
  "newEntry work ph index =
     (let (planeW, planeH) = planeSize work;
          baseBottom = 3 / 2;
          centerY = baseBottom + planeH / 2;
          spacing = 5 / 4;
          wallFrontZ = 89 / 100;
          xOffset = (if index < 2 then (of_nat index - 1 / 2) * spacing else 1 / 2);
          zPos = (if index < 2 then - (89 / 100) else wallFrontZ);
          rotY = (index < 2);
          frameThickness = 8 / 100;
          zDir = zDirOf index;
          whitezPos = zPos + (4 / 1000) * zDir;
          blackFrameThickness = 4 / 100;
          blackzPos = zPos + (2 / 1000) * zDir;
          textW = 3 / 2;
          textH = 6 / 10;
          gap = 2 / 100;
          textY = centerY - planeH / 2 - gap - textH / 2;
          textOffset = 5 / 1000;
          textzPos = zPos - textOffset * zDir
      in \<lparr>photoPlane = \<lparr>meshWidth = planeW, meshHeight = planeH, posX = xOffset,
                          posY = centerY, posZ = zPos, rotatedHalfTurn = rotY, enabled = True\<rparr>,
          whiteFramePlane = \<lparr>meshWidth = planeW + frameThickness * 2,
                          meshHeight = planeH + frameThickness * 2, posX = xOffset,
                          posY = centerY, posZ = whitezPos, rotatedHalfTurn = rotY, enabled = True\<rparr>,
          blackFramePlane = \<lparr>meshWidth = planeW + blackFrameThickness * 2,
                          meshHeight = planeH + blackFrameThickness * 2, posX = xOffset,
                          posY = centerY, posZ = blackzPos, rotatedHalfTurn = rotY, enabled = True\<rparr>,
          textPlane = \<lparr>meshWidth = textW, meshHeight = textH, posX = xOffset,
                          posY = textY, posZ = textzPos, rotatedHalfTurn = rotY, enabled = True\<rparr>,
          matUrl = url ph,
          captionTitle = (case title work of None \<Rightarrow> [] | Some t \<Rightarrow> t),
          captionBody = (case body work of None \<Rightarrow> [] | Some b \<Rightarrow> b),
          captionDate = (case shootingdate work of None \<Rightarrow> None
                         | Some d \<Rightarrow> if d = [] then None else Some d),
          originalZ = zPos\<rparr>)"

text \<open>
  \<open>createOrUpdateEntry\<close>. An existing entry is disposed and the slot set to \<open>null\<close> first;
  \<open>work.photo.url\<close> then throws a \<open>TypeError\<close> when the item has no photo, and the slot
  stays \<open>null\<close>. The result pairs the exception, if one was thrown, with the state it
  leaves behind.
\<close>

definition createOrUpdateEntry ::
    "int \<Rightarrow> string \<Rightarrow> WorkItem \<Rightarrow> nat \<Rightarrow> gallery \<Rightarrow> error option \<times> gallery" where
  "createOrUpdateEntry now rnd work index st =
     (if sceneDisposed st then (None, st)
      else
        (let st1 = (if jsGet (photoEntries st) index \<noteq> None
                    then st\<lparr>photoEntries := (photoEntries st)[index := None]\<rparr>
                    else st)
         in case photo work of
              None \<Rightarrow> (Some TypeError, st1)
            | Some ph \<Rightarrow>
                (let st2 = registerTexture now rnd (url ph) st1
                 in (None, st2\<lparr>photoEntries :=
                              jsSet (photoEntries st2) index (Some (newEntry work ph index))\<rparr>))))"

definition disableMesh :: "Mesh \<Rightarrow> Mesh" where
  "disableMesh m = m\<lparr>enabled := False\<rparr>"

definition hideEntry :: "nat \<Rightarrow> gallery \<Rightarrow> gallery" where
  "hideEntry index st =
     (case jsGet (photoEntries st) index of
        None \<Rightarrow> st
      | Some entry \<Rightarrow>
          st\<lparr>photoEntries := (photoEntries st)[index := Some
               (entry\<lparr>photoPlane := disableMesh (photoPlane entry),
                      whiteFramePlane := disableMesh (whiteFramePlane entry),
                      blackFramePlane := disableMesh (blackFramePlane entry),
                      textPlane := disableMesh (textPlane entry)\<rparr>)]\<rparr>)"

section \<open>Content fetcher\<close>

text \<open>The build-time environment \<open>import.meta.env\<close>.\<close>

record env =
  apiKey :: "string option"
  isDev :: bool

definition digitChar :: "nat \<Rightarrow> char" where
  "digitChar d = char_of (48 + d)"

fun showNat :: "nat \<Rightarrow> string" where
  "showNat n = (if n < 10 then [digitChar n] else showNat (n div 10) @ [digitChar (n mod 10)])"

declare showNat.simps [simp del]

definition showInt :: "int \<Rightarrow> string" where
  "showInt i = (if i < 0 then ''-'' @ showNat (nat (- i)) else showNat (nat i))"

definition requestUrl :: "env \<Rightarrow> int \<Rightarrow> string" where
  "requestUrl e offset =
     (if isDev e
      then ''https://liangworks.microcms.io/api/v1/taiwanphoto?limit=3&offset='' @ showInt offset
      else ''/.netlify/functions/microcms?limit=3&offset='' @ showInt offset)"

text \<open>
  How the request settles: \<open>fetch\<close> rejects (the 10 second abort, or a network error), or it
  yields a response with its \<open>ok\<close> flag and, when \<open>res.json ()\<close> does not reject, the parsed
  payload.
\<close>

datatype fetch_error = AbortError | NetworkError

datatype fetch_outcome = Rejected fetch_error | Response bool "MicroCMSResponse option"

text \<open>\<open>data.totalCount || 0\<close>.\<close>

definition orZero :: "int option \<Rightarrow> int" where
  "orZero v = (case v of None \<Rightarrow> 0 | Some n \<Rightarrow> n)"

text \<open>
  \<open>loadPhotos\<close> up to its \<open>await fetch\<close>: without an API key it returns at once (\<open>None\<close>),
  otherwise it registers the request with the asset registry and waits.
\<close>

definition loadPhotos_begin :: "env \<Rightarrow> int \<Rightarrow> string \<Rightarrow> int \<Rightarrow> gallery \<Rightarrow> handle option \<times> gallery" where
  "loadPhotos_begin e now rnd offset st =
     (case apiKey e of
        None \<Rightarrow> (None, st)
      | Some k \<Rightarrow>
          if k = [] then (None, st)
          else (let (fetchDone, st1) = registerAsset now rnd (Some (requestUrl e offset)) st
                in (Some fetchDone, st1)))"

text \<open>
  The loop \<open>for (let i = 0; i < 3; i++)\<close> over the slots still to visit; an exception from
  \<open>createOrUpdateEntry\<close> leaves the loop.
\<close>

fun bindSlots ::
    "int \<Rightarrow> (nat \<Rightarrow> string) \<Rightarrow> WorkItem list \<Rightarrow> nat list \<Rightarrow> gallery \<Rightarrow> error option \<times> gallery" where
  "bindSlots now rnd items [] st = (None, st)"
| "bindSlots now rnd items (i # rest) st =
     (if i < length items
      then (case createOrUpdateEntry now (rnd i) (items ! i) i st of
              (Some e, st1) \<Rightarrow> (Some e, st1)
            | (None, st1) \<Rightarrow> bindSlots now rnd items rest st1)
      else bindSlots now rnd items rest (hideEntry i st))"

text \<open>
  \<open>loadPhotos\<close> from the moment the request settles. Every exception of the inner \<open>try\<close>
  block ends in its \<open>catch\<close>, which completes the registry handle and logs.
\<close>

definition loadPhotos_settle ::
    "int \<Rightarrow> (nat \<Rightarrow> string) \<Rightarrow> fetch_outcome \<Rightarrow> handle \<Rightarrow> int \<Rightarrow> gallery \<Rightarrow> gallery" where
  "loadPhotos_settle now rnd outcome fetchDone offset st =
     (case outcome of
        Rejected err \<Rightarrow> invoke now fetchDone st
      | Response ok parsed \<Rightarrow>
          if \<not> ok then invoke now fetchDone st
          else if sceneDisposed st then invoke now fetchDone st
          else (case parsed of
                  None \<Rightarrow> invoke now fetchDone st
                | Some data \<Rightarrow>
                    (let st1 = st\<lparr>totalCount := orZero (resTotalCount data), pageOffset := offset\<rparr>
                     in case contents data of
                          None \<Rightarrow> invoke now fetchDone st1
                        | Some items \<Rightarrow>
                            (case bindSlots now rnd items [0, 1, 2] st1 of
                               (Some e, st2) \<Rightarrow> invoke now fetchDone st2
                             | (None, st2) \<Rightarrow> invoke now fetchDone st2))))"

text \<open>The whole of \<open>loadPhotos\<close>, the request settling at time \<open>later\<close>.\<close>

definition loadPhotos ::
    "env \<Rightarrow> int \<Rightarrow> int \<Rightarrow> string \<Rightarrow> (nat \<Rightarrow> string) \<Rightarrow> fetch_outcome \<Rightarrow> int \<Rightarrow> gallery \<Rightarrow> gallery" where
  "loadPhotos e now later rnd rnds outcome offset st =
     (case loadPhotos_begin e now rnd offset st of
        (None, st1) \<Rightarrow> st1
      | (Some fetchDone, st1) \<Rightarrow> loadPhotos_settle later rnds outcome fetchDone offset st1)"

section \<open>Page transition controller\<close>

definition hiddenZOf :: "nat \<Rightarrow> rat" where
  "hiddenZOf i = (if i < 2 then - (3 / 2) else 3 / 2)"

definition setZ :: "rat \<Rightarrow> Mesh \<Rightarrow> Mesh" where
  "setZ z m = m\<lparr>posZ := z\<rparr>"

text \<open>
  Where the four tweens of the first \<open>forEach\<close> of \<open>pageSlide\<close> leave an enabled entry;
  a tween ends at its \<open>to\<close> value.
\<close>

definition slideOutEntry :: "nat \<Rightarrow> PhotoEntry option \<Rightarrow> PhotoEntry option" where
  "slideOutEntry i eo =
     (case eo of
        None \<Rightarrow> None
      | Some e \<Rightarrow>
          if \<not> enabled (photoPlane e) then Some e
          else (let targetZ = hiddenZOf i;
                    delta = targetZ - originalZ e
                in Some (e\<lparr>photoPlane := setZ targetZ (photoPlane e),
                           whiteFramePlane := setZ (posZ (whiteFramePlane e) + delta) (whiteFramePlane e),
                           blackFramePlane := setZ (posZ (blackFramePlane e) + delta) (blackFramePlane e),
                           textPlane := setZ (posZ (textPlane e) + delta) (textPlane e)\<rparr>)))"

text \<open>Likewise for the second \<open>forEach\<close>, from the hidden depth back to the rest depth.\<close>

definition slideInEntry :: "nat \<Rightarrow> PhotoEntry option \<Rightarrow> PhotoEntry option" where
  "slideInEntry i eo =
     (case eo of
        None \<Rightarrow> None
      | Some e \<Rightarrow>
          if \<not> enabled (photoPlane e) then Some e
          else (let zDir = zDirOf i;
                    whiteTarget = originalZ e + (2 / 1000) * zDir;
                    blackTarget = originalZ e + (1 / 1000) * zDir;
                    textOffset = 1 / 100;
                    targetTextZ = originalZ e - textOffset * zDir
                in Some (e\<lparr>photoPlane := setZ (originalZ e) (photoPlane e),
                           whiteFramePlane := setZ whiteTarget (whiteFramePlane e),
                           blackFramePlane := setZ blackTarget (blackFramePlane e),
                           textPlane := setZ targetTextZ (textPlane e)\<rparr>)))"

text \<open>\<open>xs.forEach ((e, i) => ...)\<close> rewriting each element, counting from \<open>i\<close>.\<close>

fun forEachIndexed :: "(nat \<Rightarrow> 'a \<Rightarrow> 'a) \<Rightarrow> nat \<Rightarrow> 'a list \<Rightarrow> 'a list" where
  "forEachIndexed f i [] = []"
| "forEachIndexed f i (x # xs) = f i x # forEachIndexed f (Suc i) xs"

text \<open>
  The state once all tweens of a barrier have finished; \<open>animateMeshZ\<close> resolves without
  animating when the scene is disposed.
\<close>

definition animateOut :: "gallery \<Rightarrow> gallery" where
  "animateOut st =
     (if sceneDisposed st then st
      else st\<lparr>photoEntries := forEachIndexed slideOutEntry 0 (photoEntries st)\<rparr>)"

definition animateIn :: "gallery \<Rightarrow> gallery" where
  "animateIn st =
     (if sceneDisposed st then st
      else st\<lparr>photoEntries := forEachIndexed slideInEntry 0 (photoEntries st)\<rparr>)"

text \<open>
  The promise chain \<open>slideQueue = slideQueue.then (job)\<close>. Each \<open>pageSlide\<close> call appends one
  job; the list keeps the jobs in call order with the point each has reached. A job's
  callback can run only once the promise before it in the chain has resolved.
\<close>

datatype phase = Queued | AnimatingOut | Fetching int handle | AnimatingIn | Resolved

record app =
  gal :: gallery
  initialLoad :: "handle option"
  slideQueue :: "(direction \<times> phase) list"

text \<open>
  What can happen next: a click on an arrow (\<open>PageSlide\<close>), a queued job's callback being
  run, the barriers and the request of the job settling, the request of the initial
  \<open>loadPhotos ()\<close> settling, a texture's load event, a hide timer firing, the scene being
  torn down.
\<close>

datatype event =
    PageSlide direction
  | Start nat
  | OutDone nat int string
  | FetchSettled nat int "nat \<Rightarrow> string" fetch_outcome
  | InDone nat
  | InitialSettled int "nat \<Rightarrow> string" fetch_outcome
  | TextureLoaded nat int
  | HideTimerFired int
  | Dispose

definition phaseAt :: "app \<Rightarrow> nat \<Rightarrow> phase" where
  "phaseAt s i = snd (slideQueue s ! i)"

definition setPhase :: "nat \<Rightarrow> phase \<Rightarrow> app \<Rightarrow> app" where
  "setPhase i p s = s\<lparr>slideQueue := (slideQueue s)[i := (fst (slideQueue s ! i), p)]\<rparr>"

definition canStart :: "app \<Rightarrow> nat \<Rightarrow> bool" where
  "canStart s i \<longleftrightarrow>
     i < length (slideQueue s) \<and> phaseAt s i = Queued \<and> (i = 0 \<or> phaseAt s (i - 1) = Resolved)"

fun step :: "env \<Rightarrow> event \<Rightarrow> app \<Rightarrow> app option" where
  "step e (PageSlide d) s = Some (s\<lparr>slideQueue := slideQueue s @ [(d, Queued)]\<rparr>)"
| "step e (Start i) s = (if canStart s i then Some (setPhase i AnimatingOut s) else None)"
| "step e (OutDone i now rnd) s =
     (if i < length (slideQueue s) \<and> phaseAt s i = AnimatingOut
      then (let g1 = animateOut (gal s);
                off = nextOffset (pageOffset g1) (totalCount g1) (fst (slideQueue s ! i))
            in case loadPhotos_begin e now rnd off g1 of
                 (None, g2) \<Rightarrow> Some (setPhase i AnimatingIn (s\<lparr>gal := g2\<rparr>))
               | (Some fetchDone, g2) \<Rightarrow> Some (setPhase i (Fetching off fetchDone) (s\<lparr>gal := g2\<rparr>)))
      else None)"
| "step e (FetchSettled i now rnds outcome) s =
     (if i < length (slideQueue s)
      then (case phaseAt s i of
              Fetching off fetchDone \<Rightarrow>
                Some (setPhase i AnimatingIn
                       (s\<lparr>gal := loadPhotos_settle now rnds outcome fetchDone off (gal s)\<rparr>))
            | _ \<Rightarrow> None)
      else None)"
| "step e (InDone i) s =
     (if i < length (slideQueue s) \<and> phaseAt s i = AnimatingIn
      then Some (setPhase i Resolved (s\<lparr>gal := animateIn (gal s)\<rparr>))
      else None)"
| "step e (InitialSettled now rnds outcome) s =
     (case initialLoad s of
        None \<Rightarrow> None
      | Some fetchDone \<Rightarrow>
          Some (s\<lparr>gal := loadPhotos_settle now rnds outcome fetchDone 0 (gal s),
                  initialLoad := None\<rparr>))"
| "step e (TextureLoaded k now) s =
     (if k < length (textureHandles (gal s))
      then Some (s\<lparr>gal := invoke now (textureHandles (gal s) ! k)
                            ((gal s)\<lparr>textureHandles :=
                               take k (textureHandles (gal s)) @ drop (Suc k) (textureHandles (gal s))\<rparr>)\<rparr>)
      else None)"
| "step e (HideTimerFired t) s =
     (case fireHideTimer t (gal s) of
        None \<Rightarrow> None
      | Some g \<Rightarrow> Some (s\<lparr>gal := g\<rparr>))"
| "step e Dispose s = Some (s\<lparr>gal := (gal s)\<lparr>sceneDisposed := True\<rparr>\<rparr>)"

fun run :: "env \<Rightarrow> event list \<Rightarrow> app \<Rightarrow> app option" where
  "run e [] s = Some s"
| "run e (ev # evs) s = (case step e ev s of None \<Rightarrow> None | Some s1 \<Rightarrow> run e evs s1)"

text \<open>
  The application once the effect has run to its end: \<open>loadPhotos ()\<close> has been called
  with offset \<open>0\<close> and no page transition has been requested yet.
\<close>

definition startApp :: "env \<Rightarrow> int \<Rightarrow> string \<Rightarrow> gallery \<Rightarrow> app" where
  "startApp e now rnd g =
     (case loadPhotos_begin e now rnd 0 g of
        (h, g1) \<Rightarrow> \<lparr>gal = g1, initialLoad = h, slideQueue = []\<rparr>)"

text \<open>The closure variables as declared, before anything was registered or loaded.\<close>

definition initialGallery :: gallery where
  "initialGallery =
     \<lparr>sceneDisposed = False, photoEntries = [None, None, None], pageOffset = 0, totalCount = 0,
      totalAssets = 0, loadedAssets = 0, loadingOverlay = None, loadingOverlayShownAt = 0,
      registeredAssetKeys = {}, hideTimers = [], textureHandles = []\<rparr>"

section \<open>Vocabulary of the properties\<close>

text \<open>
  The ways a request can fail: \<open>fetch\<close> rejecting (abort or network error), a response that
  is not \<open>ok\<close>, a body that does not parse.
\<close>

fun failedFetch :: "fetch_outcome \<Rightarrow> bool" where
  "failedFetch (Rejected err) = True"
| "failedFetch (Response ok parsed) = (\<not> ok \<or> parsed = None)"

text \<open>The directions of the \<open>pageSlide\<close> calls among the events, in call order.\<close>

fun requested :: "event list \<Rightarrow> direction list" where
  "requested [] = []"
| "requested (PageSlide d # evs) = d # requested evs"
| "requested (ev # evs) = requested evs"

text \<open>A job is in flight from the moment its callback runs until its promise resolves.\<close>

fun inFlight :: "phase \<Rightarrow> bool" where
  "inFlight Queued = False"
| "inFlight Resolved = False"
| "inFlight p = True"



text \<open>
  The offsets and total counts that double arithmetic handles exactly, and the events
  whose response carries such a total count.
\<close>

definition okOffset :: "int \<Rightarrow> bool" where
  "okOffset off \<longleftrightarrow> off mod 3 = 0 \<and> - 3 \<le> off \<and> off \<le> 2 ^ 53 - 2"

definition okCount :: "int \<Rightarrow> bool" where
  "okCount c \<longleftrightarrow> 0 \<le> c \<and> c < 2 ^ 53"

fun boundedCount :: "fetch_outcome \<Rightarrow> bool" where
  "boundedCount (Rejected err) = True"
| "boundedCount (Response ok None) = True"
| "boundedCount (Response ok (Some data)) = okCount (orZero (resTotalCount data))"

fun boundedEvent :: "event \<Rightarrow> bool" where
  "boundedEvent (FetchSettled i now rnds outcome) = boundedCount outcome"
| "boundedEvent (InitialSettled now rnds outcome) = boundedCount outcome"
| "boundedEvent ev = True"

section \<open>Sample inputs\<close>

definition landscapePhoto :: MicroCMSImage where
  "landscapePhoto = \<lparr>url = ''u'', height = Some 1, width = Some 2\<rparr>"

definition landscapeWork :: WorkItem where
  "landscapeWork = \<lparr>work_id = ''w'', title = None, body = None, shootingdate = None,
      photo = Some landscapePhoto\<rparr>"

definition noWidthPhoto :: MicroCMSImage where
  "noWidthPhoto = \<lparr>url = ''u'', height = Some 2, width = None\<rparr>"

definition noWidthWork :: WorkItem where
  "noWidthWork = \<lparr>work_id = ''w'', title = None, body = None, shootingdate = None,
      photo = Some noWidthPhoto\<rparr>"

definition noDimsPhoto :: MicroCMSImage where
  "noDimsPhoto = \<lparr>url = ''u'', height = Some 0, width = None\<rparr>"

definition noDimsWork :: WorkItem where
  "noDimsWork = \<lparr>work_id = ''w'', title = None, body = None, shootingdate = None,
      photo = Some noDimsPhoto\<rparr>"


definition prodEnv :: env where
  "prodEnv = \<lparr>apiKey = Some ''key'', isDev = False\<rparr>"

definition twoClicks :: "event list" where
  "twoClicks = [PageSlide Forward, PageSlide Backward, Start 0, OutDone 0 5 ''r'']"







text \<open>
  The initial load reports \<open>10 ^ 17\<close> items; one click backward is then served.
\<close>

definition hugePage :: MicroCMSResponse where
  "hugePage = \<lparr>contents = Some [], resTotalCount = Some (10 ^ 17)\<rparr>"

definition hugeCountRun :: "event list" where
  "hugeCountRun =
     [InitialSettled 1 (\<lambda>i. []) (Response True (Some hugePage)),
      PageSlide Backward, Start 0, OutDone 0 5 [],
      FetchSettled 0 9 (\<lambda>i. []) (Response True (Some hugePage))]"

section \<open>Facts about double arithmetic\<close>

lemma pow2_powi: "pow2 k = 2 powi k"
proof (cases "0 \<le> k")
  case True
  then show ?thesis by (simp add: pow2_def power_int_nonneg_exp)
next
  case False
  then have "(2::rat) powi k = 1 / 2 powi (- k)"
    using power_int_minus_divide [of "2::rat" "- k"] by simp
  also have "\<dots> = 1 / 2 ^ nat (- k)" using False by (simp add: power_int_nonneg_exp)
  finally show ?thesis using False by (simp add: pow2_def)
qed

lemma pow2_pos [simp]: "0 < pow2 k"
  by (simp add: pow2_powi)

lemma pow2_nonneg [simp]: "0 \<le> pow2 k"
  using pow2_pos [of k] by linarith

lemma pow2_not_le_zero [simp]: "\<not> pow2 k \<le> 0"
  using pow2_pos [of k] by linarith

lemma pow2_neq_zero [simp]: "pow2 k \<noteq> 0"
  using pow2_pos [of k] by linarith

lemma pow2_add: "pow2 (a + b) = pow2 a * pow2 b"
  by (simp add: pow2_powi power_int_add)

lemma pow2_mono: "a \<le> b \<Longrightarrow> pow2 a \<le> pow2 b"
  by (simp add: pow2_powi power_int_increasing)

lemma pow2_nat: "0 \<le> k \<Longrightarrow> pow2 k = 2 ^ nat k"
  by (simp add: pow2_def)

text \<open>\<open>expo\<close> is the binary exponent.\<close>

lemma expo_bounds:
  assumes "x \<noteq> 0"
  shows "pow2 (expo x) \<le> \<bar>x\<bar> \<and> \<bar>x\<bar> < pow2 (expo x + 1)"
proof (cases "1 \<le> \<bar>x\<bar>")
  case True
  let ?m = "\<lfloor>\<bar>x\<bar>\<rfloor>"
  have m: "0 < ?m" using True by simp
  have e: "expo x = bitlen ?m - 1" using True by (simp add: expo_def Let_def)
  have b1: "1 \<le> bitlen ?m" using m bitlen_eq_zero_iff [of ?m] bitlen_nonneg [of ?m] by linarith
  from bitlen_bounds [OF m] have lo: "2 ^ nat (bitlen ?m - 1) \<le> ?m" and hi: "?m < 2 ^ nat (bitlen ?m)"
    by simp_all
  have "(of_int (2 ^ nat (bitlen ?m - 1)) :: rat) \<le> of_int ?m" using lo by (simp only: of_int_le_iff)
  also have "\<dots> \<le> \<bar>x\<bar>" by simp
  finally have 1: "pow2 (expo x) \<le> \<bar>x\<bar>" using b1 by (simp add: e pow2_nat)
  have "\<bar>x\<bar> < of_int (2 ^ nat (bitlen ?m))" using hi by (simp only: floor_less_iff)
  then have 2: "\<bar>x\<bar> < pow2 (expo x + 1)" using b1 by (simp add: e pow2_nat)
  show ?thesis using 1 2 by simp
next
  case False
  let ?a = "\<bar>x\<bar>"
  have a: "0 < ?a" "?a < 1" using assms False by simp_all
  let ?c = "\<lceil>1 / ?a\<rceil>"
  have c1: "1 < 1 / ?a" using a by simp
  then have c2: "1 < ?c" by (simp add: less_ceiling_iff)
  let ?k = "bitlen (?c - 1)"
  have e: "expo x = - ?k" using False by (simp add: expo_def Let_def)
  have m: "0 < ?c - 1" using c2 by simp
  have k1: "1 \<le> ?k" using m bitlen_eq_zero_iff [of "?c - 1"] bitlen_nonneg [of "?c - 1"] by linarith
  from bitlen_bounds [OF m] have lo: "2 ^ nat (?k - 1) \<le> ?c - 1" and hi: "?c - 1 < 2 ^ nat ?k"
    by simp_all
  have "?c \<le> 2 ^ nat ?k" using hi by simp
  then have "1 / ?a \<le> of_int (2 ^ nat ?k)" by (simp only: ceiling_le_iff)
  then have "1 / ?a \<le> 2 ^ nat ?k" by simp
  then have "1 \<le> 2 ^ nat ?k * ?a" using a by (simp add: field_simps)
  then have 1: "pow2 (expo x) \<le> ?a" using k1 by (simp add: e pow2_def field_simps)
  have "2 ^ nat (?k - 1) < ?c" using lo by simp
  then have "of_int (2 ^ nat (?k - 1)) < 1 / ?a" by (simp only: less_ceiling_iff)
  then have "2 ^ nat (?k - 1) < 1 / ?a" by simp
  then have lt: "2 ^ nat (?k - 1) * ?a < 1" using a by (simp add: field_simps)
  have 2: "?a < pow2 (expo x + 1)"
  proof (cases "?k = 1")
    case True
    then show ?thesis using a by (simp add: e pow2_def)
  next
    case False
    then have "nat (- (1 - ?k)) = nat (?k - 1)" "\<not> 0 \<le> 1 - ?k" using k1 by simp_all
    then show ?thesis using lt by (simp add: e pow2_def field_simps)
  qed
  show ?thesis using 1 2 by simp
qed

lemma expo_unique:
  assumes "pow2 e \<le> \<bar>x\<bar>" and "\<bar>x\<bar> < pow2 (e + 1)"
  shows "expo x = e"
proof -
  have nz: "x \<noteq> 0"
  proof
    assume "x = 0"
    then have "pow2 e \<le> 0" using assms(1) by simp
    then show False using pow2_pos [of e] by linarith
  qed
  note b = expo_bounds [OF nz]
  have "\<not> expo x < e"
  proof
    assume "expo x < e"
    then have "pow2 (expo x + 1) \<le> pow2 e" by (intro pow2_mono) simp
    then show False using b assms(1) by linarith
  qed
  moreover have "\<not> e < expo x"
  proof
    assume "e < expo x"
    then have "pow2 (e + 1) \<le> pow2 (expo x)" by (intro pow2_mono) simp
    then show False using b assms(2) by linarith
  qed
  ultimately show ?thesis by simp
qed

lemma expo_ge: "pow2 k \<le> \<bar>x\<bar> \<Longrightarrow> k \<le> expo x"
proof (rule ccontr)
  assume a: "pow2 k \<le> \<bar>x\<bar>" and "\<not> k \<le> expo x"
  then have "pow2 (expo x + 1) \<le> pow2 k" by (intro pow2_mono) simp
  moreover have "x \<noteq> 0" using a pow2_pos [of k] by auto
  ultimately show False using expo_bounds [of x] a by linarith
qed

lemma expo_le: "x \<noteq> 0 \<Longrightarrow> \<bar>x\<bar> < pow2 (k + 1) \<Longrightarrow> expo x \<le> k"
proof (rule ccontr)
  assume a: "x \<noteq> 0" "\<bar>x\<bar> < pow2 (k + 1)" and "\<not> expo x \<le> k"
  then have "pow2 (k + 1) \<le> pow2 (expo x)" by (intro pow2_mono) simp
  then show False using expo_bounds [OF a(1)] a(2) by linarith
qed

lemma roundEven_of_int [simp]: "roundEven (of_int k) = k"
  by (simp add: roundEven_def)

lemma roundEven_error: "\<bar>of_int (roundEven y) - y\<bar> \<le> 1 / 2"
proof -
  have "of_int \<lfloor>y\<rfloor> \<le> y" "y < of_int \<lfloor>y\<rfloor> + 1" by linarith+
  then show ?thesis by (simp add: roundEven_def Let_def)
qed

lemma roundEven_ge_floor: "\<lfloor>y\<rfloor> \<le> roundEven y"
  by (simp add: roundEven_def Let_def)

lemma roundEven_ge: "of_int k \<le> y \<Longrightarrow> k \<le> roundEven y"
proof -
  assume "of_int k \<le> y"
  then have "k \<le> \<lfloor>y\<rfloor>" by (simp add: le_floor_iff)
  then show ?thesis using roundEven_ge_floor [of y] by linarith
qed

lemma fl_zero [simp]: "fl 0 = 0"
  by (simp add: fl_def)

text \<open>The rounding error is at most half the spacing of the doubles around \<open>x\<close>.\<close>

lemma fl_error:
  assumes "x \<noteq> 0" and "- 1022 \<le> expo x"
  shows "\<bar>fl x - x\<bar> \<le> pow2 (expo x - 53)"
proof -
  let ?u = "pow2 (expo x - 52)"
  have u: "0 < ?u" by simp
  have f: "fl x = of_int (roundEven (x / ?u)) * ?u"
    using assms by (simp add: fl_def Let_def max_def)
  have "fl x - x = (of_int (roundEven (x / ?u)) - x / ?u) * ?u"
    using u by (simp add: f field_simps)
  then have "\<bar>fl x - x\<bar> = \<bar>of_int (roundEven (x / ?u)) - x / ?u\<bar> * ?u"
    using u by (simp add: abs_mult)
  also have "\<dots> \<le> (1 / 2) * ?u"
    using roundEven_error [of "x / ?u"] u by (intro mult_right_mono) simp_all
  also have "\<dots> = pow2 (expo x - 53)"
    using pow2_add [of "expo x - 53" 1] by (simp add: pow2_def)
  finally show ?thesis .
qed


lemma fl_lower:
  assumes "0 < x" and "- 1022 \<le> expo x"
  shows "pow2 (expo x) \<le> fl x"
proof -
  let ?u = "pow2 (expo x - 52)"
  have u: "0 < ?u" by simp
  have f: "fl x = of_int (roundEven (x / ?u)) * ?u"
    using assms by (simp add: fl_def Let_def max_def)
  have e: "pow2 (expo x) = 2 ^ 52 * ?u"
    using pow2_add [of 52 "expo x - 52"] by (simp add: pow2_def)
  have "pow2 (expo x) \<le> x" using expo_bounds [of x] assms(1) by simp
  then have "2 ^ 52 \<le> x / ?u" using u by (simp add: e field_simps)
  then have "of_int (2 ^ 52) \<le> x / ?u" by simp
  then have "2 ^ 52 \<le> roundEven (x / ?u)" by (rule roundEven_ge)
  then have "(of_int (2 ^ 52) :: rat) \<le> of_int (roundEven (x / ?u))" by (simp only: of_int_le_iff)
  then have "2 ^ 52 * ?u \<le> of_int (roundEven (x / ?u)) * ?u"
    using u by (intro mult_right_mono) simp_all
  then show ?thesis by (simp add: f e)
qed

text \<open>Whole numbers of magnitude up to \<open>2 ^ 53\<close> are doubles.\<close>

lemma fl_of_int:
  assumes "\<bar>k\<bar> \<le> 2 ^ 53"
  shows "fl (of_int k) = of_int k"
proof (cases "k = 0")
  case True
  then show ?thesis by simp
next
  case False
  let ?x = "of_int k :: rat"
  let ?e = "expo ?x"
  have nz: "?x \<noteq> 0" using False by simp
  have "1 \<le> \<bar>k\<bar>" using False by simp
  then have "(of_int 1 :: rat) \<le> of_int \<bar>k\<bar>" by (simp only: of_int_le_iff)
  then have "pow2 0 \<le> \<bar>?x\<bar>" by (simp add: pow2_def)
  then have e0: "0 \<le> ?e" by (rule expo_ge)
  have "(of_int \<bar>k\<bar> :: rat) \<le> of_int (2 ^ 53)" using assms by (simp only: of_int_le_iff)
  then have le: "\<bar>?x\<bar> \<le> 2 ^ 53" by simp
  then have "\<bar>?x\<bar> < pow2 (53 + 1)" by (simp add: pow2_def)
  then have e53: "?e \<le> 53" by (rule expo_le [OF nz])
  let ?u = "pow2 (?e - 52)"
  have f: "fl ?x = of_int (roundEven (?x / ?u)) * ?u"
    using nz e0 by (simp add: fl_def Let_def max_def)
  show ?thesis
  proof (cases "?e \<le> 52")
    case True
    obtain n where n: "n = nat (52 - ?e)" by simp
    have "pow2 (?e - 52) * pow2 (52 - ?e) = 1"
      using pow2_add [of "?e - 52" "52 - ?e"] by (simp add: pow2_def)
    moreover have "pow2 (52 - ?e) = 2 ^ n" using True n by (simp add: pow2_def)
    ultimately have u: "?u * 2 ^ n = 1" by simp
    then have "?x / ?u = ?x * 2 ^ n"
      by (simp add: field_simps)
    also have "\<dots> = of_int (k * 2 ^ n)" by simp
    finally have "roundEven (?x / ?u) = k * 2 ^ n" by (simp only: roundEven_of_int)
    then have "fl ?x = ?x * (2 ^ n * ?u)" by (simp add: f)
    then show ?thesis using u by (simp add: mult.commute)
  next
    case False
    then have e: "?e = 53" using e53 by simp
    have "pow2 53 \<le> \<bar>?x\<bar>" using expo_bounds [OF nz] e by simp
    then have ax: "\<bar>?x\<bar> = 2 ^ 53" using le by (simp add: pow2_def)
    have u2: "?u = 2" using e by (simp add: pow2_def)
    have k: "k = 2 ^ 53 \<or> k = - (2 ^ 53)"
    proof -
      have "(of_int \<bar>k\<bar> :: rat) = of_int (2 ^ 53)" using ax by simp
      then have "\<bar>k\<bar> = 2 ^ 53" by (simp only: of_int_eq_iff)
      then show ?thesis by linarith
    qed
    then have "?x / 2 = of_int (k div 2)" by auto
    then have "roundEven (?x / ?u) = k div 2" by (simp only: u2 roundEven_of_int)
    moreover have "of_int (k div 2) * (2::rat) = ?x" using k by auto
    ultimately show ?thesis by (simp add: f u2)
  qed
qed

lemma fl_of_int_range: "- (2 ^ 53) \<le> k \<Longrightarrow> k \<le> 2 ^ 53 \<Longrightarrow> fl (of_int k) = of_int k"
  by (rule fl_of_int) simp

subsection \<open>The percentage\<close>




subsection \<open>The page wrap-around\<close>

lemma floor_third:
  assumes "- (2 ^ 53) < m" and "m < 2 ^ 53"
  shows "\<lfloor>fl (of_int m / 3)\<rfloor> = m div 3"
proof (cases "m mod 3 = 0")
  case True
  then have "m = (m div 3) * 3" by presburger
  then have "(of_int m :: rat) = of_int (m div 3) * 3" by (metis of_int_mult of_int_numeral)
  then have x: "(of_int m :: rat) / 3 = of_int (m div 3)" by simp
  have "- (2 ^ 53) \<le> m div 3" "m div 3 \<le> 2 ^ 53" using assms by simp_all
  then show ?thesis unfolding x by (simp add: fl_of_int_range)
next
  case False
  let ?q = "m div 3"
  let ?x = "of_int m / 3 :: rat"
  have r: "m = ?q * 3 + 1 \<or> m = ?q * 3 + 2" using False by presburger
  have "(of_int m :: rat) = of_int ?q * 3 + 1 \<or> (of_int m :: rat) = of_int ?q * 3 + 2"
    using r by (metis of_int_add of_int_mult of_int_numeral of_int_1)
  then have xr: "of_int ?q + 1 / 3 \<le> ?x" "?x \<le> of_int ?q + 2 / 3" by auto
  have "(of_int (- (2 ^ 53)) :: rat) < of_int m" "(of_int m :: rat) < of_int (2 ^ 53)"
    using assms by (simp_all only: of_int_less_iff)
  then have mr: "- (2 ^ 53) < (of_int m :: rat)" "(of_int m :: rat) < 2 ^ 53" by simp_all
  have m1: "m \<noteq> 0" using False by auto
  have xnz: "?x \<noteq> 0" using m1 by simp
  have "1 \<le> \<bar>m\<bar>" using m1 by simp
  then have "(of_int 1 :: rat) \<le> of_int \<bar>m\<bar>" by (simp only: of_int_le_iff)
  then have "1 / 3 \<le> \<bar>?x\<bar>" by simp
  then have "pow2 (- 2) \<le> \<bar>?x\<bar>" by (simp add: pow2_def)
  then have elo: "- 2 \<le> expo ?x" by (rule expo_ge)
  have "\<bar>?x\<bar> < 2 ^ 52" using mr by (simp add: abs_less_iff)
  then have "\<bar>?x\<bar> < pow2 (51 + 1)" by (simp add: pow2_def)
  then have ehi: "expo ?x \<le> 51" by (rule expo_le [OF xnz])
  have "\<bar>fl ?x - ?x\<bar> \<le> pow2 (expo ?x - 53)" using fl_error [OF xnz] elo by simp
  also have "\<dots> \<le> pow2 (- 2)" using ehi by (intro pow2_mono) simp
  also have "\<dots> = 1 / 4" by (simp add: pow2_def)
  finally have "\<bar>fl ?x - ?x\<bar> \<le> 1 / 4" .
  then have "of_int ?q \<le> fl ?x" "fl ?x < of_int ?q + 1" using xr by linarith+
  then show ?thesis by (intro floor_unique) simp_all
qed

text \<open>
  For offsets and total counts that are exact as doubles, the wrap-around is the one of
  whole-number arithmetic.
\<close>

lemma nextOffset_exact:
  assumes p: "- (2 ^ 53) + 3 \<le> p" "p \<le> 2 ^ 53 - 2" and t: "- (2 ^ 53) + 3 \<le> tc" "tc < 2 ^ 53"
  shows "nextOffset p tc d =
     (let n = p + 3 * dirVal d
      in if n < 0 then ((tc - 1) div 3) * 3 else if tc \<le> n then 0 else n)"
proof -
  define n where "n = p + 3 * dirVal d"
  have three: "jsMul 3 (of_int (dirVal d)) = of_int (3 * dirVal d)"
    by (cases d) (simp_all add: jsMul_def fl_of_int_range [of 3, simplified] fl_of_int_range [of "- 3", simplified])
  have "of_int p + of_int (3 * dirVal d) = (of_int n :: rat)"
    unfolding n_def by (simp only: of_int_add)
  then have sum: "jsAdd (of_int p) (jsMul 3 (of_int (dirVal d))) = fl (of_int n)"
    by (simp only: jsAdd_def three)
  have nb: "- (2 ^ 53) \<le> n" "n \<le> 2 ^ 53 + 1" using p unfolding n_def by (cases d; simp)+
  have wrap: "\<lfloor>jsMul (of_int \<lfloor>jsDiv (jsSub (of_int tc) 1) 3\<rfloor>) 3\<rfloor> = ((tc - 1) div 3) * 3"
  proof -
    have "jsSub (of_int tc) 1 = fl (of_int (tc - 1))" by (simp add: jsSub_def)
    also have "\<dots> = of_int (tc - 1)" using t by (intro fl_of_int_range) simp_all
    finally have "\<lfloor>jsDiv (jsSub (of_int tc) 1) 3\<rfloor> = (tc - 1) div 3"
      using floor_third [of "tc - 1"] t by (simp add: jsDiv_def)
    moreover have "fl (of_int (((tc - 1) div 3) * 3)) = of_int (((tc - 1) div 3) * 3)"
      using t by (intro fl_of_int_range) simp_all
    moreover have "\<lfloor>(of_int (((tc - 1) div 3) * 3) :: rat)\<rfloor> = ((tc - 1) div 3) * 3"
      by (rule floor_of_int)
    ultimately show ?thesis by (simp add: jsMul_def)
  qed
  have "nextOffset p tc d = (if n < 0 then ((tc - 1) div 3) * 3 else if tc \<le> n then 0 else n)"
  proof (cases "n \<le> 2 ^ 53")
    case True
    have "fl (of_int n) = of_int n" using nb(1) True by (rule fl_of_int_range)
    then show ?thesis using wrap by (simp add: nextOffset_def sum Let_def)
  next
    case False
    then have n: "n = 2 ^ 53 + 1" using nb(2) by simp
    let ?x = "of_int n :: rat"
    have xv: "?x = 2 ^ 53 + 1" unfolding n by simp
    have x: "0 < ?x" unfolding xv by simp
    have "expo ?x = 53" by (rule expo_unique) (simp_all add: xv pow2_def)
    then have "pow2 53 \<le> fl ?x" using fl_lower [OF x] by simp
    then have big: "2 ^ 53 \<le> fl ?x" by (simp add: pow2_def)
    have "(of_int tc :: rat) < 2 ^ 53" using t(2) by (simp only: of_int_less_numeral_power_cancel_iff)
    moreover have "(0::rat) < 2 ^ 53" by simp
    ultimately have "of_int tc \<le> fl ?x" "\<not> fl ?x < 0" using big by linarith+
    moreover have "tc \<le> n" "\<not> n < 0" using n t by simp_all
    ultimately show ?thesis by (simp add: nextOffset_def sum Let_def)
  qed
  then show ?thesis by (simp add: Let_def n_def)
qed

lemma nextOffset_first_page: "nextOffset 0 0 Forward = 0"
  using nextOffset_exact [of 0 0 Forward] by simp

section \<open>Asset registry: duplicate keys and progress\<close>

lemma createLoadingOverlay_shown [simp]: "loadingOverlay (createLoadingOverlay now st) \<noteq> None"
  by (simp add: createLoadingOverlay_def)

lemma createLoadingOverlay_fields [simp]:
  "totalAssets (createLoadingOverlay now st) = totalAssets st"
  "loadedAssets (createLoadingOverlay now st) = loadedAssets st"
  "registeredAssetKeys (createLoadingOverlay now st) = registeredAssetKeys st"
  "photoEntries (createLoadingOverlay now st) = photoEntries st"
  "pageOffset (createLoadingOverlay now st) = pageOffset st"
  "totalCount (createLoadingOverlay now st) = totalCount st"
  "sceneDisposed (createLoadingOverlay now st) = sceneDisposed st"
  "textureHandles (createLoadingOverlay now st) = textureHandles st"
  by (simp_all add: createLoadingOverlay_def)

lemma updateLoadingOverlay_shown [simp]:
  "loadingOverlay (updateLoadingOverlay now st) = None \<longleftrightarrow> loadingOverlay st = None"
  by (simp add: updateLoadingOverlay_def Let_def split: option.splits)

lemma updateLoadingOverlay_fields [simp]:
  "totalAssets (updateLoadingOverlay now st) = totalAssets st"
  "loadedAssets (updateLoadingOverlay now st) = loadedAssets st"
  "registeredAssetKeys (updateLoadingOverlay now st) = registeredAssetKeys st"
  "photoEntries (updateLoadingOverlay now st) = photoEntries st"
  "pageOffset (updateLoadingOverlay now st) = pageOffset st"
  "totalCount (updateLoadingOverlay now st) = totalCount st"
  "sceneDisposed (updateLoadingOverlay now st) = sceneDisposed st"
  "textureHandles (updateLoadingOverlay now st) = textureHandles st"
  by (simp_all add: updateLoadingOverlay_def Let_def split: option.splits)







subsection \<open>Progress and the hide timers\<close>


lemma updateLoadingOverlay_shownAt [simp]:
  "loadingOverlayShownAt (updateLoadingOverlay now st) = loadingOverlayShownAt st"
  by (simp add: updateLoadingOverlay_def Let_def split: option.splits)



lemma createLoadingOverlay_hideTimers [simp]:
  "hideTimers (createLoadingOverlay now st) = hideTimers st"
  by (simp add: createLoadingOverlay_def)

text \<open>
  A hide timer armed while the overlay shown at \<open>t0\<close> is on screen fires at \<open>t0 + 520\<close> or
  later, whatever the clock reads.
\<close>

lemma hide_time_bound: "(t0::int) + 300 + 220 \<le> now + (max 0 (300 - (now - t0)) + 220)"
  by (simp add: max_def)











section \<open>Pagination wrap-around\<close>

text \<open>
  The wrap-around is computed in doubles. With a total count of \<open>10 ^ 17\<close>, going back from
  offset 0 gives \<open>10 ^ 17\<close>, where \<open>floor ((totalCount - 1) / 3) * 3\<close> is
  \<open>99999999999999999\<close>: \<open>totalCount - 1\<close> is not a double and rounds back to \<open>10 ^ 17\<close>, and
  so does three times the floor of its third.
\<close>

theorem nextOffset_wrap_counterexample:
  "0 + 3 * dirVal Backward < 0 \<and>
   nextOffset 0 100000000000000000 Backward = 100000000000000000 \<and>
   \<lfloor>(of_int 100000000000000000 - 1) / (3::rat)\<rfloor> * 3 = 99999999999999999"
  by code_simp

text \<open>
  Claim C2, for offsets and total counts of magnitude below \<open>2 ^ 53\<close>. The offset a page
  transition loads is \<open>pageOffset + 3 * direction\<close>, except that a result below zero
  becomes \<open>floor ((totalCount - 1) / 3) * 3\<close> and a result at or above \<open>totalCount\<close>
  becomes \<open>0\<close>. With seven items, going back from offset 0 gives 6 and going on from
  offset 6 gives 0. The floor is taken over the rationals, as the specification writes it.
\<close>

theorem nextOffset_wrap:
  assumes "- (2 ^ 53) + 3 \<le> pOffset" and "pOffset \<le> 2 ^ 53 - 2"
    and "- (2 ^ 53) + 3 \<le> tCount" and "tCount < 2 ^ 53"
  shows
  "(pOffset + 3 * dirVal d < 0 \<longrightarrow>
      nextOffset pOffset tCount d = \<lfloor>(of_int tCount - 1) / (3::rat)\<rfloor> * 3) \<and>
   (0 \<le> pOffset + 3 * dirVal d \<and> tCount \<le> pOffset + 3 * dirVal d \<longrightarrow>
      nextOffset pOffset tCount d = 0) \<and>
   (0 \<le> pOffset + 3 * dirVal d \<and> pOffset + 3 * dirVal d < tCount \<longrightarrow>
      nextOffset pOffset tCount d = pOffset + 3 * dirVal d) \<and>
   nextOffset 0 7 Backward = 6 \<and> nextOffset 6 7 Forward = 0"
proof -
  have f: "\<lfloor>(of_int tCount - 1) / (3::rat)\<rfloor> = (tCount - 1) div 3"
    using floor_divide_of_int_eq [of "tCount - 1" 3, where ?'a = rat] by simp
  have "nextOffset 0 7 Backward = 6" "nextOffset 6 7 Forward = 0"
    using nextOffset_exact [of 0 7 Backward] nextOffset_exact [of 6 7 Forward] by simp_all
  then show ?thesis
    using nextOffset_exact [OF assms, of d] by (simp add: f Let_def)
qed

theorem nextOffset_wrap_witness:
  "nextOffset 0 7 Backward = \<lfloor>(of_int 7 - 1) / (3::rat)\<rfloor> * 3 \<and> nextOffset 6 7 Forward = 0
   \<and> nextOffset 3 7 Forward = 6"
  using nextOffset_wrap [of 0 7 Backward] nextOffset_wrap [of 6 7 Forward]
    nextOffset_wrap [of 3 7 Forward]
  by simp

section \<open>Plane geometry of a bound slot\<close>

lemma jsGet_jsSet_same [simp]: "jsGet (jsSet xs i v) i = v"
  by (simp add: jsGet_def jsSet_def nth_append)

lemma createOrUpdateEntry_binds:
  assumes "\<not> sceneDisposed st" and "photo work = Some ph"
  shows "fst (createOrUpdateEntry now rnd work i st) = None"
    and "jsGet (photoEntries (snd (createOrUpdateEntry now rnd work i st))) i = Some (newEntry work ph i)"
  using assms by (simp_all add: createOrUpdateEntry_def Let_def)

lemma planeSize_aspect:
  "planeSize work =
     (if aspect work < 1 then (1 / 2, (1 / aspect work) / 2) else (aspect work / 2, 1 / 2))"
  by (simp add: planeSize_def Let_def)

lemma newEntry_photoPlane_size:
  "meshWidth (photoPlane (newEntry work ph i)) = fst (planeSize work)"
  "meshHeight (photoPlane (newEntry work ph i)) = snd (planeSize work)"
  by (simp_all add: newEntry_def Let_def split: prod.splits)

text \<open>
  Claim C7 says the plane is sized so that the larger of its two dimensions is the unit
  size and, after halving, 1/2. The code does otherwise: for a photo of width 2 and
  height 1, \<open>createOrUpdateEntry\<close> builds a plane of width 1 and height 1/2, whose larger
  dimension is 1.
\<close>

theorem photo_plane_of_landscape_photo:
  "fst (createOrUpdateEntry 0 [] landscapeWork 0 initialGallery) = None \<and>
   jsGet (photoEntries (snd (createOrUpdateEntry 0 [] landscapeWork 0 initialGallery))) 0 =
     Some (newEntry landscapeWork landscapePhoto 0) \<and>
   meshWidth (photoPlane (newEntry landscapeWork landscapePhoto 0)) = 1 \<and>
   meshHeight (photoPlane (newEntry landscapeWork landscapePhoto 0)) = 1 / 2 \<and>
   max (meshWidth (photoPlane (newEntry landscapeWork landscapePhoto 0)))
       (meshHeight (photoPlane (newEntry landscapeWork landscapePhoto 0))) \<noteq> 1 / 2"
proof -
  have a: "\<not> sceneDisposed initialGallery" by (simp add: initialGallery_def)
  have b: "photo landscapeWork = Some landscapePhoto" by (simp add: landscapeWork_def)
  have c: "planeSize landscapeWork = (1, 1 / 2)"
    by (simp add: planeSize_aspect aspect_def imgW_def imgH_def orOne_def landscapeWork_def
        landscapePhoto_def)
  show ?thesis
    using createOrUpdateEntry_binds [OF a b, of 0 "[]" 0]
    by (simp add: newEntry_photoPlane_size c)
qed

text \<open>
  In general the branches of \<open>createOrUpdateEntry\<close> give the unit size to the smaller
  side: for positive dimensions the plane keeps the aspect ratio, its smaller dimension
  is 1/2 and its larger one is 1/2 times the larger of width/height and height/width.
\<close>

lemma plane_smaller_dimension_unit:
  assumes "\<not> sceneDisposed st" and "photo work = Some ph"
    and "0 < imgW work" and "0 < imgH work"
  shows "\<exists>e. fst (createOrUpdateEntry now rnd work i st) = None \<and>
           jsGet (photoEntries (snd (createOrUpdateEntry now rnd work i st))) i = Some e \<and>
           meshWidth (photoPlane e) / meshHeight (photoPlane e) = imgW work / imgH work \<and>
           min (meshWidth (photoPlane e)) (meshHeight (photoPlane e)) = 1 / 2 \<and>
           max (meshWidth (photoPlane e)) (meshHeight (photoPlane e)) =
             (1 / 2) * max (imgW work / imgH work) (imgH work / imgW work)"
proof -
  let ?a = "aspect work"
  have pos: "0 < ?a" using assms(3,4) by (simp add: aspect_def)
  have inv: "imgH work / imgW work = 1 / ?a" by (simp add: aspect_def)
  have a: "imgW work / imgH work = ?a" by (simp add: aspect_def)
  have lt: "?a < 1 \<Longrightarrow> 1 < 1 / ?a" using pos by (simp add: field_simps)
  have ge: "\<not> ?a < 1 \<Longrightarrow> 1 / ?a \<le> 1" using pos by (simp add: field_simps)
  have sz: "fst (planeSize work) / snd (planeSize work) = ?a \<and>
            min (fst (planeSize work)) (snd (planeSize work)) = 1 / 2 \<and>
            max (fst (planeSize work)) (snd (planeSize work)) = (1 / 2) * max ?a (1 / ?a)"
  proof (cases "?a < 1")
    case True
    have sz: "planeSize work = (1 / 2, (1 / ?a) / 2)"
      using True by (simp add: planeSize_aspect)
    have big: "1 < 1 / ?a" by (rule lt [OF True])
    have m: "max ?a (1 / ?a) = 1 / ?a" using True big by (simp add: max_def)
    have ratio: "(1 / 2) / ((1 / ?a) / 2) = ?a" using pos by simp
    show ?thesis
      unfolding sz fst_conv snd_conv m ratio using big by (simp add: min_def max_def)
  next
    case False
    have sz: "planeSize work = (?a / 2, 1 / 2)"
      using False by (simp add: planeSize_aspect)
    have small: "1 / ?a \<le> 1" by (rule ge [OF False])
    have m: "max ?a (1 / ?a) = ?a" using False small by (intro max_absorb1) linarith
    show ?thesis
      unfolding sz fst_conv snd_conv m using False by (simp add: min_def max_def)
  qed
  show ?thesis
    using createOrUpdateEntry_binds [OF assms(1,2), of now rnd i] sz
    by (simp add: newEntry_photoPlane_size a inv)
qed

text \<open>
  The navigation arrows are sized by the same two branches the other way round: there
  the larger side takes the fixed size.
\<close>

lemma arrowSize_larger_dimension:
  assumes "0 < w" and "0 < h"
  shows "max (fst (arrowSize w h)) (snd (arrowSize w h)) = 8 / 10"
proof -
  have o: "orOne (Some w) = w" "orOne (Some h) = h"
    using assms by (simp_all add: orOne_def)
  show ?thesis
  proof (cases "1 \<le> w / h")
    case True
    then have "(8 / 10) / (w / h) \<le> 8 / 10"
      using assms by (simp add: field_simps)
    then show ?thesis using True by (simp add: arrowSize_def o Let_def max_def)
  next
    case False
    then have "(8 / 10) * (w / h) \<le> 8 / 10"
      using assms by (simp add: field_simps)
    then show ?thesis using False by (simp add: arrowSize_def o Let_def max_def)
  qed
qed

text \<open>
  Claim C8 as stated fails: with the width missing and the height 2 the aspect ratio is
  1/2, not 1, and the plane bound is 1/2 wide and 1 high, not square.
\<close>

theorem aspect_default_counterexample:
  "fst (createOrUpdateEntry 0 [] noWidthWork 0 initialGallery) = None \<and>
   jsGet (photoEntries (snd (createOrUpdateEntry 0 [] noWidthWork 0 initialGallery))) 0 =
     Some (newEntry noWidthWork noWidthPhoto 0) \<and>
   width noWidthPhoto = None \<and>
   aspect noWidthWork = 1 / 2 \<and>
   meshWidth (photoPlane (newEntry noWidthWork noWidthPhoto 0)) = 1 / 2 \<and>
   meshHeight (photoPlane (newEntry noWidthWork noWidthPhoto 0)) = 1"
proof -
  have a: "\<not> sceneDisposed initialGallery" by (simp add: initialGallery_def)
  have b: "photo noWidthWork = Some noWidthPhoto" by (simp add: noWidthWork_def)
  have c: "aspect noWidthWork = 1 / 2"
    by (simp add: aspect_def imgW_def imgH_def orOne_def noWidthWork_def noWidthPhoto_def)
  have d: "planeSize noWidthWork = (1 / 2, 1)"
    by (simp add: planeSize_aspect c)
  show ?thesis
    using createOrUpdateEntry_binds [OF a b, of 0 "[]" 0]
    by (simp add: newEntry_photoPlane_size c d) (simp add: noWidthPhoto_def)
qed

text \<open>
  Claim C8, amended. Binding a work item that has a photo completes without throwing.
  A width that is zero or missing is read as 1, and so is a height that is zero or
  missing, each on its own; when both are zero or missing the aspect ratio is 1:1 and the
  plane is the square of side 1/2.
\<close>

theorem dimension_defaults_to_one:
  assumes "\<not> sceneDisposed st" and "photo work = Some ph"
  shows "\<exists>e. fst (createOrUpdateEntry now rnd work i st) = None \<and>
           jsGet (photoEntries (snd (createOrUpdateEntry now rnd work i st))) i = Some e \<and>
           (width ph = None \<or> width ph = Some 0 \<longrightarrow> imgW work = 1) \<and>
           (height ph = None \<or> height ph = Some 0 \<longrightarrow> imgH work = 1) \<and>
           ((width ph = None \<or> width ph = Some 0) \<and> (height ph = None \<or> height ph = Some 0) \<longrightarrow>
              aspect work = 1 \<and>
              meshWidth (photoPlane e) = 1 / 2 \<and> meshHeight (photoPlane e) = 1 / 2)"
proof -
  have w: "width ph = None \<or> width ph = Some 0 \<Longrightarrow> imgW work = 1"
    using assms(2) by (auto simp add: imgW_def orOne_def)
  have h: "height ph = None \<or> height ph = Some 0 \<Longrightarrow> imgH work = 1"
    using assms(2) by (auto simp add: imgH_def orOne_def)
  have sq: "imgW work = 1 \<Longrightarrow> imgH work = 1 \<Longrightarrow>
      aspect work = 1 \<and> planeSize work = (1 / 2, 1 / 2)"
    by (simp add: planeSize_aspect aspect_def)
  show ?thesis
    using createOrUpdateEntry_binds [OF assms, of now rnd i] w h sq
    by (auto simp add: newEntry_photoPlane_size)
qed

theorem dimension_defaults_to_one_witness:
  "\<not> sceneDisposed initialGallery \<and>
   photo noDimsWork = Some noDimsPhoto \<and> width noDimsPhoto = None \<and> height noDimsPhoto = Some 0 \<and>
   (\<exists>e. fst (createOrUpdateEntry 0 [] noDimsWork 0 initialGallery) = None \<and>
        jsGet (photoEntries (snd (createOrUpdateEntry 0 [] noDimsWork 0 initialGallery))) 0 = Some e \<and>
        aspect noDimsWork = 1 \<and> meshWidth (photoPlane e) = 1 / 2 \<and> meshHeight (photoPlane e) = 1 / 2)"
proof -
  have a: "\<not> sceneDisposed initialGallery" by (simp add: initialGallery_def)
  have b: "photo noDimsWork = Some noDimsPhoto" by (simp add: noDimsWork_def)
  have c: "width noDimsPhoto = None" "height noDimsPhoto = Some 0"
    by (simp_all add: noDimsPhoto_def)
  show ?thesis
    using dimension_defaults_to_one [OF a b, of 0 "[]" 0] a b c by auto
qed

section \<open>Slots are bound and hidden one at a time\<close>

lemma registerAsset_frame [simp]:
  "photoEntries (snd (registerAsset now rnd key st)) = photoEntries st"
  "pageOffset (snd (registerAsset now rnd key st)) = pageOffset st"
  "totalCount (snd (registerAsset now rnd key st)) = totalCount st"
  "sceneDisposed (snd (registerAsset now rnd key st)) = sceneDisposed st"
  by (simp_all add: registerAsset_def Let_def)

lemma registerTexture_frame [simp]:
  "photoEntries (registerTexture now rnd key st) = photoEntries st"
  "pageOffset (registerTexture now rnd key st) = pageOffset st"
  "totalCount (registerTexture now rnd key st) = totalCount st"
  "sceneDisposed (registerTexture now rnd key st) = sceneDisposed st"
  by (simp_all add: registerTexture_def Let_def split: prod.splits)
    (metis registerAsset_frame snd_conv)+

lemma invoke_frame [simp]:
  "photoEntries (invoke now h st) = photoEntries st"
  "pageOffset (invoke now h st) = pageOffset st"
  "totalCount (invoke now h st) = totalCount st"
  "sceneDisposed (invoke now h st) = sceneDisposed st"
  by (cases h; simp)+

lemma jsGet_update_other: "j \<noteq> i \<Longrightarrow> jsGet (xs[i := v]) j = jsGet xs j"
  by (simp add: jsGet_def)

lemma jsGet_jsSet_other: "j \<noteq> i \<Longrightarrow> jsGet (jsSet xs i v) j = jsGet xs j"
  by (auto simp add: jsGet_def jsSet_def nth_append nth_Cons')

lemma createOrUpdateEntry_other:
  "j \<noteq> i \<Longrightarrow>
   jsGet (photoEntries (snd (createOrUpdateEntry now rnd work i st))) j = jsGet (photoEntries st) j"
  by (simp add: createOrUpdateEntry_def Let_def jsGet_jsSet_other jsGet_update_other
      split: option.splits)

lemma hideEntry_other:
  "j \<noteq> i \<Longrightarrow> jsGet (photoEntries (hideEntry i st)) j = jsGet (photoEntries st) j"
  by (simp add: hideEntry_def jsGet_update_other split: option.splits)

lemma hideEntry_empty: "jsGet (photoEntries st) i = None \<Longrightarrow> hideEntry i st = st"
  by (simp add: hideEntry_def)

lemma createLoadingOverlay_entries:
  "createLoadingOverlay now (st\<lparr>photoEntries := x\<rparr>) = (createLoadingOverlay now st)\<lparr>photoEntries := x\<rparr>"
  by (simp add: createLoadingOverlay_def)

lemma updateLoadingOverlay_entries:
  "updateLoadingOverlay now (st\<lparr>photoEntries := x\<rparr>) = (updateLoadingOverlay now st)\<lparr>photoEntries := x\<rparr>"
  by (simp add: updateLoadingOverlay_def percentOf_def Let_def split: option.splits)

lemma registerAsset_entries:
  "registerAsset now rnd key (st\<lparr>photoEntries := x\<rparr>) =
     (fst (registerAsset now rnd key st), (snd (registerAsset now rnd key st))\<lparr>photoEntries := x\<rparr>)"
  by (simp add: registerAsset_def Let_def createLoadingOverlay_def updateLoadingOverlay_def
      percentOf_def split: option.splits)

lemma registerTexture_entries:
  "registerTexture now rnd key (st\<lparr>photoEntries := x\<rparr>) =
     (registerTexture now rnd key st)\<lparr>photoEntries := x\<rparr>"
  by (simp add: registerTexture_def registerAsset_entries Let_def split: prod.splits)

lemma jsSet_update_other:
  "j \<noteq> i \<Longrightarrow> j < length xs \<Longrightarrow> jsSet (xs[j := v]) i w = (jsSet xs i w)[j := v]"
  by (simp add: jsSet_def list_update_swap list_update_append1)

lemma createOrUpdateEntry_ignores_other:
  assumes "j \<noteq> i" and "j < length (photoEntries st)"
  shows "createOrUpdateEntry now rnd work i (st\<lparr>photoEntries := (photoEntries st)[j := v]\<rparr>) =
     (fst (createOrUpdateEntry now rnd work i st),
      (snd (createOrUpdateEntry now rnd work i st))
        \<lparr>photoEntries := (photoEntries (snd (createOrUpdateEntry now rnd work i st)))[j := v]\<rparr>)"
  using assms
  by (auto simp add: createOrUpdateEntry_def Let_def jsGet_update_other registerTexture_entries
      jsSet_update_other list_update_swap split: option.splits)

lemma hideEntry_ignores_other:
  assumes "j \<noteq> i" and "j < length (photoEntries st)"
  shows "hideEntry i (st\<lparr>photoEntries := (photoEntries st)[j := v]\<rparr>) =
     (hideEntry i st)\<lparr>photoEntries := (photoEntries (hideEntry i st))[j := v]\<rparr>"
  using assms
  by (auto simp add: hideEntry_def jsGet_update_other list_update_swap split: option.splits)

text \<open>
  Claim C10. Binding or hiding slot \<open>i\<close> leaves every other slot \<open>j\<close> as it was, and hiding
  an empty slot changes nothing at all. Neither operation reads another slot either:
  overwriting slot \<open>j\<close> with any value before the operation gives the same result as
  overwriting it afterwards. This holds for every index, the three slots included.
\<close>

theorem slot_frame:
  assumes "j \<noteq> i"
  shows "jsGet (photoEntries (snd (createOrUpdateEntry now rnd work i st))) j = jsGet (photoEntries st) j \<and>
         jsGet (photoEntries (hideEntry i st)) j = jsGet (photoEntries st) j \<and>
         (jsGet (photoEntries st) i = None \<longrightarrow> hideEntry i st = st) \<and>
         (j < length (photoEntries st) \<longrightarrow>
            createOrUpdateEntry now rnd work i (st\<lparr>photoEntries := (photoEntries st)[j := v]\<rparr>) =
              (fst (createOrUpdateEntry now rnd work i st),
               (snd (createOrUpdateEntry now rnd work i st))
                 \<lparr>photoEntries := (photoEntries (snd (createOrUpdateEntry now rnd work i st)))[j := v]\<rparr>) \<and>
            hideEntry i (st\<lparr>photoEntries := (photoEntries st)[j := v]\<rparr>) =
              (hideEntry i st)\<lparr>photoEntries := (photoEntries (hideEntry i st))[j := v]\<rparr>)"
  using createOrUpdateEntry_other [OF assms] hideEntry_other [OF assms] hideEntry_empty
    createOrUpdateEntry_ignores_other [OF assms] hideEntry_ignores_other [OF assms]
  by simp

theorem slot_frame_witness:
  "(1::nat) \<noteq> 0 \<and>
   jsGet (photoEntries (snd (createOrUpdateEntry 0 [] landscapeWork 0 initialGallery))) 1 = None \<and>
   jsGet (photoEntries (hideEntry 0 initialGallery)) 1 = None \<and>
   hideEntry 0 initialGallery = initialGallery"
  using slot_frame [of 1 0 0 "[]" landscapeWork initialGallery None]
  by (simp add: initialGallery_def jsGet_def)

section \<open>A failed fetch keeps the page\<close>

lemma loadPhotos_begin_frame [simp]:
  "photoEntries (snd (loadPhotos_begin e now rnd offset st)) = photoEntries st"
  "pageOffset (snd (loadPhotos_begin e now rnd offset st)) = pageOffset st"
  "totalCount (snd (loadPhotos_begin e now rnd offset st)) = totalCount st"
  "sceneDisposed (snd (loadPhotos_begin e now rnd offset st)) = sceneDisposed st"
  by (simp_all add: loadPhotos_begin_def Let_def split: option.splits prod.splits)
    (metis registerAsset_frame snd_conv)+

lemma loadPhotos_settle_failed:
  assumes "failedFetch outcome"
  shows "photoEntries (loadPhotos_settle now rnds outcome h offset st) = photoEntries st"
    and "pageOffset (loadPhotos_settle now rnds outcome h offset st) = pageOffset st"
    and "totalCount (loadPhotos_settle now rnds outcome h offset st) = totalCount st"
  using assms by (cases outcome; auto simp add: loadPhotos_settle_def)+

text \<open>
  Claim C3. When the request of \<open>loadPhotos\<close> fails (abort, network error, a status that
  is not ok, or a body that does not parse), the slot entries, \<open>pageOffset\<close> and
  \<open>totalCount\<close> are what they were before the call.
\<close>

theorem failed_fetch_preserves_slots:
  assumes "failedFetch outcome"
  shows "photoEntries (loadPhotos e now later rnd rnds outcome offset st) = photoEntries st \<and>
         pageOffset (loadPhotos e now later rnd rnds outcome offset st) = pageOffset st \<and>
         totalCount (loadPhotos e now later rnd rnds outcome offset st) = totalCount st"
proof (cases "loadPhotos_begin e now rnd offset st")
  case (Pair h st1)
  have st1: "photoEntries st1 = photoEntries st" "pageOffset st1 = pageOffset st"
    "totalCount st1 = totalCount st"
    using loadPhotos_begin_frame [of e now rnd offset st] Pair by simp_all
  show ?thesis
  proof (cases h)
    case None
    then show ?thesis using Pair st1 by (simp add: loadPhotos_def)
  next
    case (Some fetchDone)
    then show ?thesis
      using Pair st1 loadPhotos_settle_failed [OF assms, of later rnds fetchDone offset st1]
      by (simp add: loadPhotos_def)
  qed
qed

theorem failed_fetch_preserves_slots_witness:
  "failedFetch (Response False None) \<and>
   photoEntries (loadPhotos prodEnv 0 9 [] (\<lambda>i. []) (Response False None) 3 initialGallery)
     = [None, None, None] \<and>
   pageOffset (loadPhotos prodEnv 0 9 [] (\<lambda>i. []) (Response False None) 3 initialGallery) = 0"
  using failed_fetch_preserves_slots [of "Response False None" prodEnv 0 9 "[]" "\<lambda>i. []" 3 initialGallery]
  by (simp add: initialGallery_def)

text \<open>
  A body that parses but carries no \<open>contents\<close> is not one of these failures: by the time
  \<open>items[0]\<close> throws, \<open>totalCount\<close> and \<open>pageOffset\<close> have been assigned.
\<close>

lemma payload_without_contents_moves_page:
  assumes "\<not> sceneDisposed st"
  shows "pageOffset (loadPhotos_settle now rnds
           (Response True (Some \<lparr>contents = None, resTotalCount = Some n\<rparr>)) h offset st) = offset"
  using assms by (simp add: loadPhotos_settle_def)

section \<open>The transition queue\<close>

lemma step_Start:
  assumes "step e (Start i) s = Some s'"
  shows "i < length (slideQueue s)" and "snd (slideQueue s ! i) = Queued"
    and "i = 0 \<or> snd (slideQueue s ! (i - 1)) = Resolved"
    and "slideQueue s' = (slideQueue s)[i := (fst (slideQueue s ! i), AnimatingOut)]"
  using assms by (auto simp add: canStart_def setPhase_def phaseAt_def split: if_splits)

lemma step_OutDone:
  assumes "step e (OutDone i now rnd) s = Some s'"
  shows "i < length (slideQueue s)" and "snd (slideQueue s ! i) = AnimatingOut"
    and "\<exists>p. p \<noteq> Queued \<and> slideQueue s' = (slideQueue s)[i := (fst (slideQueue s ! i), p)]"
  using assms
  by (auto simp add: setPhase_def phaseAt_def Let_def split: if_splits prod.splits option.splits)

lemma step_FetchSettled:
  assumes "step e (FetchSettled i now rnds outcome) s = Some s'"
  shows "i < length (slideQueue s)" and "\<exists>off h. snd (slideQueue s ! i) = Fetching off h"
    and "slideQueue s' = (slideQueue s)[i := (fst (slideQueue s ! i), AnimatingIn)]"
  using assms
  by (auto simp add: setPhase_def phaseAt_def split: if_splits phase.splits)

lemma step_InDone:
  assumes "step e (InDone i) s = Some s'"
  shows "i < length (slideQueue s)" and "snd (slideQueue s ! i) = AnimatingIn"
    and "slideQueue s' = (slideQueue s)[i := (fst (slideQueue s ! i), Resolved)]"
  using assms
  by (auto simp add: setPhase_def phaseAt_def split: if_splits)

lemma step_other:
  assumes "step e ev s = Some s'"
    and "ev = InitialSettled now rnds outcome \<or> ev = TextureLoaded k now \<or> ev = HideTimerFired t
         \<or> ev = Dispose"
  shows "slideQueue s' = slideQueue s"
  using assms by (auto split: option.splits if_splits)

lemma ordered_append:
  assumes "\<forall>i j. i < j \<and> j < length q \<and> snd (q ! j) \<noteq> Queued \<longrightarrow> snd (q ! i) = Resolved"
  shows "\<forall>i j. i < j \<and> j < length (q @ [(d, Queued)]) \<and> snd ((q @ [(d, Queued)]) ! j) \<noteq> Queued
           \<longrightarrow> snd ((q @ [(d, Queued)]) ! i) = Resolved"
  using assms by (auto simp add: nth_append)

lemma ordered_start:
  assumes inv: "\<forall>i j. i < j \<and> j < length q \<and> snd (q ! j) \<noteq> Queued \<longrightarrow> snd (q ! i) = Resolved"
    and k: "k < length q" "snd (q ! k) = Queued" "k = 0 \<or> snd (q ! (k - 1)) = Resolved"
  shows "\<forall>i j. i < j \<and> j < length (q[k := (x, p)]) \<and> snd (q[k := (x, p)] ! j) \<noteq> Queued
           \<longrightarrow> snd (q[k := (x, p)] ! i) = Resolved"
proof (intro allI impI)
  fix i j
  assume a: "i < j \<and> j < length (q[k := (x, p)]) \<and> snd (q[k := (x, p)] ! j) \<noteq> Queued"
  then have ij: "i < j" "j < length q" by simp_all
  show "snd (q[k := (x, p)] ! i) = Resolved"
  proof (cases "j = k")
    case True
    have ik: "i < k" using ij True by simp
    then have k0: "k \<noteq> 0" "snd (q ! (k - 1)) = Resolved" using k(3) by auto
    have "snd (q ! i) = Resolved"
    proof (cases "i = k - 1")
      case True
      then show ?thesis using k0 by simp
    next
      case False
      then have "i < k - 1" "k - 1 < length q" "snd (q ! (k - 1)) \<noteq> Queued"
        using ik k(1) k0 by auto
      then show ?thesis using inv by blast
    qed
    then show ?thesis using ik by simp
  next
    case False
    then have "snd (q ! j) \<noteq> Queued" using a by simp
    then have r: "snd (q ! i) = Resolved" using inv ij by blast
    then have "i \<noteq> k" using k(2) by auto
    then show ?thesis using r by simp
  qed
qed

lemma ordered_progress:
  assumes inv: "\<forall>i j. i < j \<and> j < length q \<and> snd (q ! j) \<noteq> Queued \<longrightarrow> snd (q ! i) = Resolved"
    and k: "k < length q" "inFlight (snd (q ! k))" "p \<noteq> Queued"
  shows "\<forall>i j. i < j \<and> j < length (q[k := (x, p)]) \<and> snd (q[k := (x, p)] ! j) \<noteq> Queued
           \<longrightarrow> snd (q[k := (x, p)] ! i) = Resolved"
proof (intro allI impI)
  fix i j
  assume a: "i < j \<and> j < length (q[k := (x, p)]) \<and> snd (q[k := (x, p)] ! j) \<noteq> Queued"
  then have ij: "i < j" "j < length q" by simp_all
  have nq: "snd (q ! j) \<noteq> Queued"
  proof (cases "j = k")
    case True
    then show ?thesis using k(2) by (cases "snd (q ! k)") auto
  next
    case False
    then show ?thesis using a by simp
  qed
  then have r: "snd (q ! i) = Resolved" using inv ij by blast
  then have "i \<noteq> k" using k(2) by auto
  then show "snd (q[k := (x, p)] ! i) = Resolved" using r by simp
qed

lemma step_ordered:
  assumes st: "step e ev s = Some s'"
    and inv: "\<forall>i j. i < j \<and> j < length (slideQueue s) \<and> snd (slideQueue s ! j) \<noteq> Queued
           \<longrightarrow> snd (slideQueue s ! i) = Resolved"
  shows "\<forall>i j. i < j \<and> j < length (slideQueue s') \<and> snd (slideQueue s' ! j) \<noteq> Queued
           \<longrightarrow> snd (slideQueue s' ! i) = Resolved"
proof (cases ev)
  case (PageSlide d)
  then have "slideQueue s' = slideQueue s @ [(d, Queued)]" using st by auto
  then show ?thesis using ordered_append [OF inv] by simp
next
  case (Start i)
  note f = step_Start [OF st [unfolded Start]]
  show ?thesis unfolding f(4) by (rule ordered_start [OF inv f(1,2,3)])
next
  case (OutDone i now rnd)
  note f = step_OutDone [OF st [unfolded OutDone]]
  from f(3) obtain p where p: "p \<noteq> Queued"
    "slideQueue s' = (slideQueue s)[i := (fst (slideQueue s ! i), p)]" by blast
  have fl: "inFlight (snd (slideQueue s ! i))" using f(2) by simp
  show ?thesis unfolding p(2) by (rule ordered_progress [OF inv f(1) fl p(1)])
next
  case (FetchSettled i now rnds outcome)
  note f = step_FetchSettled [OF st [unfolded FetchSettled]]
  have fl: "inFlight (snd (slideQueue s ! i))" using f(2) by auto
  show ?thesis unfolding f(3) by (rule ordered_progress [OF inv f(1) fl]) simp
next
  case (InDone i)
  note f = step_InDone [OF st [unfolded InDone]]
  have fl: "inFlight (snd (slideQueue s ! i))" using f(2) by simp
  show ?thesis unfolding f(3) by (rule ordered_progress [OF inv f(1) fl]) simp
next
  case (InitialSettled now rnds outcome)
  then show ?thesis using step_other [OF st] inv by simp
next
  case (TextureLoaded k now)
  then show ?thesis using step_other [OF st] inv by simp
next
  case (HideTimerFired t)
  then show ?thesis using step_other [OF st] inv by simp
next
  case Dispose
  then show ?thesis using step_other [OF st] inv by simp
qed

lemma map_fst_set_phase: "i < length q \<Longrightarrow> map fst (q[i := (fst (q ! i), p)]) = map fst q"
  by (simp add: map_update list_update_same_conv)

lemma step_requested:
  assumes st: "step e ev s = Some s'"
  shows "map fst (slideQueue s') = map fst (slideQueue s) @ requested [ev]"
proof (cases ev)
  case (PageSlide d)
  then show ?thesis using st by auto
next
  case (Start i)
  note f = step_Start [OF st [unfolded Start]]
  show ?thesis unfolding f(4) using f(1) Start by (simp add: map_fst_set_phase)
next
  case (OutDone i now rnd)
  note f = step_OutDone [OF st [unfolded OutDone]]
  show ?thesis using f(1,3) OutDone by (auto simp add: map_fst_set_phase)
next
  case (FetchSettled i now rnds outcome)
  note f = step_FetchSettled [OF st [unfolded FetchSettled]]
  show ?thesis unfolding f(3) using f(1) FetchSettled by (simp add: map_fst_set_phase)
next
  case (InDone i)
  note f = step_InDone [OF st [unfolded InDone]]
  show ?thesis unfolding f(3) using f(1) InDone by (simp add: map_fst_set_phase)
next
  case (InitialSettled now rnds outcome)
  then show ?thesis using step_other [OF st] by simp
next
  case (TextureLoaded k now)
  then show ?thesis using step_other [OF st] by simp
next
  case (HideTimerFired t)
  then show ?thesis using step_other [OF st] by simp
next
  case Dispose
  then show ?thesis using step_other [OF st] by simp
qed

lemma requested_append: "requested (ev # evs) = requested [ev] @ requested evs"
  by (cases ev) simp_all

lemma run_ordered:
  assumes "run e evs s = Some s'"
    and "\<forall>i j. i < j \<and> j < length (slideQueue s) \<and> snd (slideQueue s ! j) \<noteq> Queued
           \<longrightarrow> snd (slideQueue s ! i) = Resolved"
  shows "(\<forall>i j. i < j \<and> j < length (slideQueue s') \<and> snd (slideQueue s' ! j) \<noteq> Queued
           \<longrightarrow> snd (slideQueue s' ! i) = Resolved) \<and>
         map fst (slideQueue s') = map fst (slideQueue s) @ requested evs"
  using assms
proof (induction evs arbitrary: s)
  case Nil
  then show ?case by simp
next
  case (Cons ev evs)
  from Cons.prems(1) obtain s1 where s1: "step e ev s = Some s1" and r: "run e evs s1 = Some s'"
    by (auto split: option.splits)
  have o1: "\<forall>i j. i < j \<and> j < length (slideQueue s1) \<and> snd (slideQueue s1 ! j) \<noteq> Queued
           \<longrightarrow> snd (slideQueue s1 ! i) = Resolved"
    by (rule step_ordered [OF s1 Cons.prems(2)])
  have "map fst (slideQueue s') = map fst (slideQueue s1) @ requested evs"
    using Cons.IH [OF r o1] by simp
  then have "map fst (slideQueue s') = map fst (slideQueue s) @ requested (ev # evs)"
    using step_requested [OF s1] requested_append [of ev evs] by simp
  then show ?case using Cons.IH [OF r o1] by simp
qed

lemma startApp_queue [simp]: "slideQueue (startApp e now rnd g) = []"
  by (simp add: startApp_def split: prod.splits)

text \<open>
  Claim C1. Page transitions are serialised through the one promise chain. In every state
  the application can reach, a job that has begun (it is no longer \<open>Queued\<close>) has every
  earlier job \<open>Resolved\<close>, so the work of a later \<open>pageSlide\<close> call begins only after the
  whole animate-out, fetch, animate-in sequence of every earlier call has resolved; at
  most one job is in flight; and the jobs stand in the queue in the order of the calls.
\<close>

theorem transitions_serialized:
  assumes "run e evs (startApp e now rnd g) = Some s"
  shows "(\<forall>i j. i < j \<and> j < length (slideQueue s) \<and> phaseAt s j \<noteq> Queued
            \<longrightarrow> phaseAt s i = Resolved) \<and>
         (\<forall>i j. i < length (slideQueue s) \<and> j < length (slideQueue s) \<and>
                inFlight (phaseAt s i) \<and> inFlight (phaseAt s j) \<longrightarrow> i = j) \<and>
         map fst (slideQueue s) = requested evs"
proof -
  have r: "(\<forall>i j. i < j \<and> j < length (slideQueue s) \<and> snd (slideQueue s ! j) \<noteq> Queued
           \<longrightarrow> snd (slideQueue s ! i) = Resolved) \<and>
         map fst (slideQueue s) = map fst (slideQueue (startApp e now rnd g)) @ requested evs"
    by (rule run_ordered [OF assms]) simp
  then have ord: "\<And>i j. i < j \<Longrightarrow> j < length (slideQueue s) \<Longrightarrow> phaseAt s j \<noteq> Queued
           \<Longrightarrow> phaseAt s i = Resolved"
    unfolding phaseAt_def by blast
  have one: "i = j" if "i < length (slideQueue s)" "j < length (slideQueue s)"
    "inFlight (phaseAt s i)" "inFlight (phaseAt s j)" for i j
  proof (rule ccontr)
    assume "i \<noteq> j"
    then consider "i < j" | "j < i" by linarith
    then show False
    proof cases
      case 1
      have "phaseAt s j \<noteq> Queued" using that(4) by auto
      then have "phaseAt s i = Resolved" using ord [OF 1 that(2)] by simp
      then show False using that(3) by simp
    next
      case 2
      have "phaseAt s i \<noteq> Queued" using that(3) by auto
      then have "phaseAt s j = Resolved" using ord [OF 2 that(1)] by simp
      then show False using that(4) by simp
    qed
  qed
  have req: "map fst (slideQueue s) = requested evs" using r by simp
  show ?thesis using ord one req by blast
qed

lemma twoClicks_run:
  "\<exists>s h. run prodEnv twoClicks (startApp prodEnv 0 [] initialGallery) = Some s \<and>
         length (slideQueue s) = 2 \<and> phaseAt s 0 = Fetching 0 h \<and> phaseAt s 1 = Queued"
  by (simp add: twoClicks_def prodEnv_def startApp_def loadPhotos_begin_def registerAsset_def
      keyOrRandom_def createLoadingOverlay_def updateLoadingOverlay_def
      initialGallery_def canStart_def phaseAt_def setPhase_def animateOut_def
      slideOutEntry_def nextOffset_first_page Let_def requestUrl_def)

theorem transitions_serialized_witness:
  "\<exists>s. run prodEnv twoClicks (startApp prodEnv 0 [] initialGallery) = Some s \<and>
       map fst (slideQueue s) = [Forward, Backward] \<and>
       (\<forall>i j. i < length (slideQueue s) \<and> j < length (slideQueue s) \<and>
              inFlight (phaseAt s i) \<and> inFlight (phaseAt s j) \<longrightarrow> i = j)"
proof -
  obtain s where s: "run prodEnv twoClicks (startApp prodEnv 0 [] initialGallery) = Some s"
    using twoClicks_run by blast
  have "requested twoClicks = [Forward, Backward]" by (simp add: twoClicks_def)
  then show ?thesis using transitions_serialized [OF s] s by simp
qed

section \<open>Offsets are multiples of the page size\<close>

text \<open>
  With a total count below \<open>2 ^ 53\<close> the next offset is again a multiple of 3 within the
  whole numbers that doubles represent; \<open>- 3\<close> arises going back with a total count of 0.
\<close>

lemma nextOffset_ok:
  assumes "okOffset p" and "okCount t"
  shows "okOffset (nextOffset p t d)"
proof -
  have p: "p mod 3 = 0" "- 3 \<le> p" "p \<le> 2 ^ 53 - 2" using assms(1) by (simp_all add: okOffset_def)
  have t: "0 \<le> t" "t < 2 ^ 53" using assms(2) by (simp_all add: okCount_def)
  have e: "nextOffset p t d =
     (let n = p + 3 * dirVal d
      in if n < 0 then ((t - 1) div 3) * 3 else if t \<le> n then 0 else n)"
    using p t by (intro nextOffset_exact) simp_all
  have w: "(t - 1) div 3 * 3 \<le> t - 1" "t - 3 \<le> (t - 1) div 3 * 3" "((t - 1) div 3 * 3) mod 3 = 0"
    by presburger+
  have n: "(p + 3 * dirVal d) mod 3 = 0" using p(1) by (cases d) simp_all
  have b: "- 3 \<le> (t - 1) div 3 * 3" "(t - 1) div 3 * 3 \<le> 2 ^ 53 - 2"
    using w t by simp_all
  show ?thesis
    unfolding e okOffset_def Let_def using w(3) n b t by auto
qed

lemma okOffset_multiple: "okOffset off \<Longrightarrow> off mod 3 = 0"
  by (simp add: okOffset_def)

lemma createOrUpdateEntry_page:
  assumes "createOrUpdateEntry now rnd work i st = (r, st')"
  shows "pageOffset st' = pageOffset st" and "totalCount st' = totalCount st"
  using assms by (auto simp add: createOrUpdateEntry_def Let_def split: option.splits if_splits)

lemma hideEntry_page [simp]:
  "pageOffset (hideEntry i st) = pageOffset st"
  "totalCount (hideEntry i st) = totalCount st"
  by (simp_all add: hideEntry_def split: option.splits)

lemma bindSlots_page:
  "bindSlots now rnds items slots st = (r, st') \<Longrightarrow>
     pageOffset st' = pageOffset st \<and> totalCount st' = totalCount st"
proof (induction slots arbitrary: st)
  case Nil
  then show ?case by simp
next
  case (Cons i rest)
  show ?case
  proof (cases "i < length items")
    case False
    then have "bindSlots now rnds items rest (hideEntry i st) = (r, st')"
      using Cons.prems by simp
    from Cons.IH [OF this] show ?thesis by simp
  next
    case True
    obtain r1 st1 where c: "createOrUpdateEntry now (rnds i) (items ! i) i st = (r1, st1)"
      by fastforce
    note p = createOrUpdateEntry_page [OF c]
    show ?thesis
    proof (cases r1)
      case None
      then have "bindSlots now rnds items rest st1 = (r, st')"
        using Cons.prems True c by simp
      from Cons.IH [OF this] show ?thesis using p by simp
    next
      case (Some err)
      then have "st' = st1" using Cons.prems True c by simp
      then show ?thesis using p by simp
    qed
  qed
qed

lemma loadPhotos_settle_page:
  "(pageOffset (loadPhotos_settle now rnds outcome h offset st) = pageOffset st \<and>
    totalCount (loadPhotos_settle now rnds outcome h offset st) = totalCount st) \<or>
   (\<exists>data. outcome = Response True (Some data) \<and>
      pageOffset (loadPhotos_settle now rnds outcome h offset st) = offset \<and>
      totalCount (loadPhotos_settle now rnds outcome h offset st) = orZero (resTotalCount data))"
proof (cases outcome)
  case (Rejected err)
  then show ?thesis by (simp add: loadPhotos_settle_def)
next
  case (Response ok parsed)
  show ?thesis
  proof (cases "ok \<and> \<not> sceneDisposed st \<and> parsed \<noteq> None")
    case False
    then show ?thesis using Response by (auto simp add: loadPhotos_settle_def)
  next
    case True
    then obtain data where d: "parsed = Some data" by auto
    let ?st1 = "st\<lparr>totalCount := orZero (resTotalCount data), pageOffset := offset\<rparr>"
    have o: "outcome = Response True (Some data)" using Response True d by simp
    show ?thesis
    proof (cases "contents data")
      case None
      then show ?thesis using o True by (simp add: loadPhotos_settle_def)
    next
      case (Some items)
      obtain r st2 where b: "bindSlots now rnds items [0, 1, 2] ?st1 = (r, st2)" by fastforce
      have "pageOffset st2 = offset" "totalCount st2 = orZero (resTotalCount data)"
        using bindSlots_page [OF b] by simp_all
      then show ?thesis using o True Some b
        by (cases r) (simp_all add: loadPhotos_settle_def)
    qed
  qed
qed

text \<open>A settled request leaves the page in range when its response does.\<close>

lemma loadPhotos_settle_ok:
  assumes "okOffset (pageOffset st)" and "okCount (totalCount st)"
    and "okOffset offset" and "boundedCount outcome"
  shows "okOffset (pageOffset (loadPhotos_settle now rnds outcome h offset st))"
    and "okCount (totalCount (loadPhotos_settle now rnds outcome h offset st))"
  using loadPhotos_settle_page [of now rnds outcome h offset st] assms by auto

lemma animate_page [simp]:
  "pageOffset (animateOut st) = pageOffset st"
  "totalCount (animateOut st) = totalCount st"
  "pageOffset (animateIn st) = pageOffset st"
  "totalCount (animateIn st) = totalCount st"
  by (simp_all add: animateOut_def animateIn_def)

lemma fireHideTimer_page:
  "fireHideTimer t st = Some g \<Longrightarrow> pageOffset g = pageOffset st \<and> totalCount g = totalCount st"
  by (auto simp add: fireHideTimer_def hideNow_def split: if_splits)

lemma fetching_update:
  assumes "\<forall>i off h. i < length q \<and> snd (q ! i) = Fetching off h \<longrightarrow> okOffset off"
    and "\<And>off h. p = Fetching off h \<Longrightarrow> okOffset off"
  shows "\<forall>i off h. i < length (q[k := (x, p)]) \<and> snd (q[k := (x, p)] ! i) = Fetching off h
           \<longrightarrow> okOffset off"
proof (intro allI impI)
  fix i off h
  assume a: "i < length (q[k := (x, p)]) \<and> snd (q[k := (x, p)] ! i) = Fetching off h"
  show "okOffset off"
  proof (cases "i = k")
    case True
    then have "p = Fetching off h" using a by auto
    then show ?thesis by (rule assms(2))
  next
    case False
    then have "i < length q \<and> snd (q ! i) = Fetching off h" using a by auto
    then show ?thesis using assms(1) by blast
  qed
qed

lemma loadPhotos_begin_pageOffset:
  "loadPhotos_begin e now rnd off st = (h, st') \<Longrightarrow>
     pageOffset st' = pageOffset st \<and> totalCount st' = totalCount st"
  using loadPhotos_begin_frame(2,3) [of e now rnd off st] by simp

lemma step_gal_OutDone:
  assumes "step e (OutDone i now rnd) s = Some s'"
  shows "pageOffset (gal s') = pageOffset (gal s)"
    and "totalCount (gal s') = totalCount (gal s)"
    and "\<exists>p. slideQueue s' = (slideQueue s)[i := (fst (slideQueue s ! i), p)] \<and>
           (\<forall>off h. p = Fetching off h \<longrightarrow>
              off = nextOffset (pageOffset (gal s)) (totalCount (gal s)) (fst (slideQueue s ! i)))"
proof -
  let ?g1 = "animateOut (gal s)"
  let ?off = "nextOffset (pageOffset ?g1) (totalCount ?g1) (fst (slideQueue s ! i))"
  obtain h g2 where b: "loadPhotos_begin e now rnd ?off ?g1 = (h, g2)" by fastforce
  have g2: "pageOffset g2 = pageOffset (gal s)" "totalCount g2 = totalCount (gal s)"
    using loadPhotos_begin_pageOffset [OF b] by simp_all
  have s': "s' = setPhase i (case h of None \<Rightarrow> AnimatingIn | Some d \<Rightarrow> Fetching ?off d) (s\<lparr>gal := g2\<rparr>)"
    using assms b by (cases h) (simp_all add: Let_def split: if_splits)
  show "pageOffset (gal s') = pageOffset (gal s)"
    unfolding s' using g2 by (simp add: setPhase_def)
  show "totalCount (gal s') = totalCount (gal s)"
    unfolding s' using g2 by (simp add: setPhase_def)
  show "\<exists>p. slideQueue s' = (slideQueue s)[i := (fst (slideQueue s ! i), p)] \<and>
           (\<forall>off h. p = Fetching off h \<longrightarrow>
              off = nextOffset (pageOffset (gal s)) (totalCount (gal s)) (fst (slideQueue s ! i)))"
    unfolding s'
    by (rule exI [of _ "case h of None \<Rightarrow> AnimatingIn | Some d \<Rightarrow> Fetching ?off d"])
      (cases h; simp add: setPhase_def)
qed

lemma step_gal_other:
  assumes "step e ev s = Some s'"
    and "ev = PageSlide d \<or> ev = Start i \<or> ev = InDone i \<or> ev = TextureLoaded k now
         \<or> ev = HideTimerFired t \<or> ev = Dispose"
  shows "pageOffset (gal s') = pageOffset (gal s) \<and> totalCount (gal s') = totalCount (gal s)"
proof (cases "ev = HideTimerFired t")
  case True
  then obtain g where "fireHideTimer t (gal s) = Some g" "s' = s\<lparr>gal := g\<rparr>"
    using assms(1) by (auto split: option.splits)
  then show ?thesis using fireHideTimer_page [of t "gal s" g] by simp
next
  case False
  then show ?thesis using assms
    by (auto simp add: setPhase_def split: if_splits)
qed

text \<open>
  The invariant: the page, the total count and the offset of every request in flight are
  in range, and it is kept by every event whose response carries a total count in range.
\<close>

lemma step_ok:
  assumes st: "step e ev s = Some s'"
    and ev: "boundedEvent ev"
    and inv: "okOffset (pageOffset (gal s))" "okCount (totalCount (gal s))"
      "\<forall>i off h. i < length (slideQueue s) \<and> snd (slideQueue s ! i) = Fetching off h \<longrightarrow> okOffset off"
  shows "okOffset (pageOffset (gal s')) \<and> okCount (totalCount (gal s')) \<and>
     (\<forall>i off h. i < length (slideQueue s') \<and> snd (slideQueue s' ! i) = Fetching off h \<longrightarrow> okOffset off)"
proof (cases ev)
  case (PageSlide d)
  have "slideQueue s' = slideQueue s @ [(d, Queued)]" using st PageSlide by auto
  then show ?thesis using step_gal_other [OF st] PageSlide inv by (auto simp add: nth_append)
next
  case (Start i)
  note f = step_Start [OF st [unfolded Start]]
  have q: "\<forall>k off h. k < length (slideQueue s') \<and> snd (slideQueue s' ! k) = Fetching off h
       \<longrightarrow> okOffset off"
    unfolding f(4) by (rule fetching_update [OF inv(3)]) simp
  show ?thesis using step_gal_other [OF st] Start inv(1,2) q by simp
next
  case (OutDone i now rnd)
  note g = step_gal_OutDone [OF st [unfolded OutDone]]
  from g(3) obtain p where p: "slideQueue s' = (slideQueue s)[i := (fst (slideQueue s ! i), p)]"
    "\<And>off h. p = Fetching off h \<Longrightarrow>
        off = nextOffset (pageOffset (gal s)) (totalCount (gal s)) (fst (slideQueue s ! i))"
    by blast
  have "\<And>off h. p = Fetching off h \<Longrightarrow> okOffset off"
    using p(2) nextOffset_ok [OF inv(1,2)] by simp
  then have q: "\<forall>k off h. k < length (slideQueue s') \<and> snd (slideQueue s' ! k) = Fetching off h
       \<longrightarrow> okOffset off"
    unfolding p(1) by (intro fetching_update [OF inv(3)])
  show ?thesis using g(1,2) inv(1,2) q by simp
next
  case (FetchSettled i now rnds outcome)
  note f = step_FetchSettled [OF st [unfolded FetchSettled]]
  from f(2) obtain off h where ph: "snd (slideQueue s ! i) = Fetching off h" by blast
  have off: "okOffset off" using inv(3) f(1) ph by blast
  have b: "boundedCount outcome" using ev FetchSettled by simp
  have g: "gal s' = loadPhotos_settle now rnds outcome h off (gal s)"
    using st f(1) ph unfolding FetchSettled by (auto simp add: phaseAt_def setPhase_def)
  have "okOffset (pageOffset (gal s'))" "okCount (totalCount (gal s'))"
    unfolding g by (rule loadPhotos_settle_ok [OF inv(1,2) off b])+
  moreover have "\<forall>k off h. k < length (slideQueue s') \<and> snd (slideQueue s' ! k) = Fetching off h
       \<longrightarrow> okOffset off"
    unfolding f(3) by (rule fetching_update [OF inv(3)]) simp
  ultimately show ?thesis by simp
next
  case (InDone i)
  note f = step_InDone [OF st [unfolded InDone]]
  have q: "\<forall>k off h. k < length (slideQueue s') \<and> snd (slideQueue s' ! k) = Fetching off h
       \<longrightarrow> okOffset off"
    unfolding f(3) by (rule fetching_update [OF inv(3)]) simp
  show ?thesis using step_gal_other [OF st] InDone inv(1,2) q by simp
next
  case (InitialSettled now rnds outcome)
  then obtain h where h: "initialLoad s = Some h"
    "s' = s\<lparr>gal := loadPhotos_settle now rnds outcome h 0 (gal s), initialLoad := None\<rparr>"
    using st by (auto split: option.splits)
  have b: "boundedCount outcome" using ev InitialSettled by simp
  have z: "okOffset 0" by (simp add: okOffset_def)
  have "okOffset (pageOffset (gal s'))" "okCount (totalCount (gal s'))"
    unfolding h(2) using loadPhotos_settle_ok [OF inv(1,2) z b, of now rnds h] by simp_all
  then show ?thesis using inv(3) h(2) by simp
next
  case (TextureLoaded k now)
  then show ?thesis using step_gal_other [OF st] step_other [OF st] inv by simp
next
  case (HideTimerFired t)
  then show ?thesis using step_gal_other [OF st] step_other [OF st] inv by simp
next
  case Dispose
  then show ?thesis using step_gal_other [OF st] step_other [OF st] inv by simp
qed

lemma run_ok:
  assumes "run e evs s = Some s'"
    and "list_all boundedEvent evs"
    and "okOffset (pageOffset (gal s))" and "okCount (totalCount (gal s))"
    and "\<forall>i off h. i < length (slideQueue s) \<and> snd (slideQueue s ! i) = Fetching off h \<longrightarrow> okOffset off"
  shows "okOffset (pageOffset (gal s')) \<and> okCount (totalCount (gal s')) \<and>
     (\<forall>i off h. i < length (slideQueue s') \<and> snd (slideQueue s' ! i) = Fetching off h \<longrightarrow> okOffset off)"
  using assms
proof (induction evs arbitrary: s)
  case Nil
  then show ?case by simp
next
  case (Cons ev evs)
  from Cons.prems(1) obtain s1 where s1: "step e ev s = Some s1" and r: "run e evs s1 = Some s'"
    by (auto split: option.splits)
  have b: "boundedEvent ev" "list_all boundedEvent evs" using Cons.prems(2) by simp_all
  note i1 = step_ok [OF s1 b(1) Cons.prems(3,4,5)]
  show ?case
    by (rule Cons.IH [OF r b(2) conjunct1 [OF i1] conjunct1 [OF conjunct2 [OF i1]]
          conjunct2 [OF conjunct2 [OF i1]]])
qed

lemma startApp_gal [simp]:
  "pageOffset (gal (startApp e now rnd g)) = pageOffset g"
  "totalCount (gal (startApp e now rnd g)) = totalCount g"
  by (cases "loadPhotos_begin e now rnd 0 g"; simp add: startApp_def loadPhotos_begin_pageOffset)+

text \<open>
  The wrap-around is computed in doubles, and a response is free to carry any total
  count. The initial load reports \<open>10 ^ 17\<close> items and one click backward follows: the
  offset passed to \<open>loadPhotos\<close> and stored in \<open>pageOffset\<close> is \<open>10 ^ 17\<close>, one more than a
  multiple of 3.
\<close>

theorem offset_multiple_of_page_size_counterexample:
  "run prodEnv hugeCountRun (startApp prodEnv 0 [] initialGallery) \<noteq> None \<and>
   pageOffset (gal (the (run prodEnv hugeCountRun (startApp prodEnv 0 [] initialGallery))))
     = 100000000000000000 \<and>
   pageOffset (gal (the (run prodEnv hugeCountRun (startApp prodEnv 0 [] initialGallery)))) mod 3
     = 1"
proof -
  have wrap: "nextOffset 0 100000000000000000 Backward = 100000000000000000"
    by code_simp
  have "run prodEnv hugeCountRun (startApp prodEnv 0 [] initialGallery) \<noteq> None \<and>
     pageOffset (gal (the (run prodEnv hugeCountRun (startApp prodEnv 0 [] initialGallery))))
       = 100000000000000000"
    by (simp add: hugeCountRun_def hugePage_def prodEnv_def startApp_def loadPhotos_begin_def
        loadPhotos_settle_def registerAsset_def keyOrRandom_def createLoadingOverlay_def
        updateLoadingOverlay_def initialGallery_def canStart_def phaseAt_def setPhase_def
        animateOut_def slideOutEntry_def wrap Let_def requestUrl_def orZero_def
        hideEntry_def jsGet_def)
  then show ?thesis by simp
qed

text \<open>
  Claim C9, for total counts below \<open>2 ^ 53\<close>. Starting from the initial \<open>loadPhotos ()\<close> at
  offset 0, in every state the application can reach while every response carries a
  total count from 0 to \<open>2 ^ 53 - 1\<close>, \<open>pageOffset\<close> is a multiple of 3, the offset of every
  request in flight is a multiple of 3, and so is the offset that a transition in either
  direction would pass to \<open>loadPhotos\<close> next. The total count the application starts
  with, 0 in the code, may be any count in that range.
\<close>

theorem offset_multiple_of_page_size:
  assumes "run e evs (startApp e now rnd g) = Some s"
    and "pageOffset g = 0" and "okCount (totalCount g)"
    and "list_all boundedEvent evs"
  shows "pageOffset (gal s) mod 3 = 0 \<and>
         (\<forall>i off h. i < length (slideQueue s) \<and> phaseAt s i = Fetching off h \<longrightarrow> off mod 3 = 0) \<and>
         (\<forall>d. nextOffset (pageOffset (gal s)) (totalCount (gal s)) d mod 3 = 0)"
proof -
  have inv: "okOffset (pageOffset (gal s)) \<and> okCount (totalCount (gal s)) \<and>
     (\<forall>i off h. i < length (slideQueue s) \<and> snd (slideQueue s ! i) = Fetching off h \<longrightarrow> okOffset off)"
    by (rule run_ok [OF assms(1) assms(4)]) (simp_all add: assms(2,3) okOffset_def)
  then have "\<forall>d. okOffset (nextOffset (pageOffset (gal s)) (totalCount (gal s)) d)"
    by (simp add: nextOffset_ok)
  then show ?thesis using inv by (auto simp add: phaseAt_def okOffset_multiple)
qed

theorem offset_multiple_of_page_size_witness:
  "pageOffset initialGallery = 0 \<and> list_all boundedEvent twoClicks \<and>
   (\<exists>s. run prodEnv twoClicks (startApp prodEnv 0 [] initialGallery) = Some s \<and>
       pageOffset (gal s) mod 3 = 0 \<and>
       (\<forall>d. nextOffset (pageOffset (gal s)) (totalCount (gal s)) d mod 3 = 0))"
proof -
  obtain s where s: "run prodEnv twoClicks (startApp prodEnv 0 [] initialGallery) = Some s"
    using twoClicks_run by blast
  have z: "pageOffset initialGallery = 0" "okCount (totalCount initialGallery)"
    by (simp_all add: initialGallery_def okCount_def)
  have b: "list_all boundedEvent twoClicks" by (simp add: twoClicks_def)
  show ?thesis using offset_multiple_of_page_size [OF s z b] s z b by simp
qed

section \<open>A failed fetch does not block the queue\<close>

lemma setPhase_queue [simp]:
  "length (slideQueue (setPhase i p s)) = length (slideQueue s)"
  "i < length (slideQueue s) \<Longrightarrow> phaseAt (setPhase i p s) i = p"
  "slideQueue (s\<lparr>gal := g\<rparr>) = slideQueue s"
  by (simp_all add: setPhase_def phaseAt_def)

text \<open>
  A job whose callback can run goes through to the resolution of its promise, whatever
  the outcome of its request; the request is skipped when there is no API key.
\<close>

lemma job_runs_to_resolution:
  assumes "canStart s i"
  shows "\<exists>s'. (run e [Start i, OutDone i t rnd, FetchSettled i t' rnds outcome, InDone i] s = Some s' \<or>
               run e [Start i, OutDone i t rnd, InDone i] s = Some s') \<and>
              phaseAt s' i = Resolved"
proof -
  have i: "i < length (slideQueue s)" using assms by (simp add: canStart_def)
  let ?s1 = "setPhase i AnimatingOut s"
  have 1: "step e (Start i) s = Some ?s1" using assms by simp
  have p1: "i < length (slideQueue ?s1)" "phaseAt ?s1 i = AnimatingOut" using i by simp_all
  let ?g1 = "animateOut (gal ?s1)"
  let ?off = "nextOffset (pageOffset ?g1) (totalCount ?g1) (fst (slideQueue ?s1 ! i))"
  obtain h g2 where b: "loadPhotos_begin e t rnd ?off ?g1 = (h, g2)" by fastforce
  show ?thesis
  proof (cases h)
    case None
    let ?s2 = "setPhase i AnimatingIn (?s1\<lparr>gal := g2\<rparr>)"
    have 2: "step e (OutDone i t rnd) ?s1 = Some ?s2"
      using p1 b None by (simp add: Let_def)
    have p2: "i < length (slideQueue ?s2)" "phaseAt ?s2 i = AnimatingIn" using i by simp_all
    let ?s3 = "setPhase i Resolved (?s2\<lparr>gal := animateIn (gal ?s2)\<rparr>)"
    have 3: "step e (InDone i) ?s2 = Some ?s3" using p2 by simp
    have p3: "phaseAt ?s3 i = Resolved" using i by simp
    have "run e [Start i, OutDone i t rnd, InDone i] s = Some ?s3"
      using 1 2 3 by simp
    then show ?thesis using p3 by blast
  next
    case (Some fetchDone)
    let ?s2 = "setPhase i (Fetching ?off fetchDone) (?s1\<lparr>gal := g2\<rparr>)"
    have 2: "step e (OutDone i t rnd) ?s1 = Some ?s2"
      using p1 b Some by (simp add: Let_def)
    have p2: "i < length (slideQueue ?s2)" "phaseAt ?s2 i = Fetching ?off fetchDone"
      using i by simp_all
    let ?s3 = "setPhase i AnimatingIn
        (?s2\<lparr>gal := loadPhotos_settle t' rnds outcome fetchDone ?off (gal ?s2)\<rparr>)"
    have 3: "step e (FetchSettled i t' rnds outcome) ?s2 = Some ?s3" using p2 by simp
    have p3: "i < length (slideQueue ?s3)" "phaseAt ?s3 i = AnimatingIn" using i by simp_all
    let ?s4 = "setPhase i Resolved (?s3\<lparr>gal := animateIn (gal ?s3)\<rparr>)"
    have 4: "step e (InDone i) ?s3 = Some ?s4" using p3 by simp
    have p4: "phaseAt ?s4 i = Resolved" using i by simp
    have "run e [Start i, OutDone i t rnd, FetchSettled i t' rnds outcome, InDone i] s = Some ?s4"
      using 1 2 3 4 by simp
    then show ?thesis using p4 by blast
  qed
qed

text \<open>
  Claim C4. Take any reachable state in which a job waits for its request. However the
  request settles, failures included, \<open>loadPhotos\<close> returns and the job goes on to animate
  in; once that barrier is passed the job's promise resolves; and the job queued behind
  it, if there is one, can then start and runs through to its own resolution, whatever
  the outcome of its own request. The barriers and the settling of a request are events
  of the environment: animations end, and a request is aborted after 10 seconds.
\<close>

theorem fetch_failure_does_not_block:
  assumes "run e evs (startApp e now rnd g) = Some s"
    and "i < length (slideQueue s)" and "phaseAt s i = Fetching off h"
  shows "\<exists>s1 s2. step e (FetchSettled i t rnds outcome) s = Some s1 \<and>
            gal s1 = loadPhotos_settle t rnds outcome h off (gal s) \<and>
            phaseAt s1 i = AnimatingIn \<and>
            step e (InDone i) s1 = Some s2 \<and> phaseAt s2 i = Resolved \<and>
            (Suc i < length (slideQueue s2) \<longrightarrow>
               canStart s2 (Suc i) \<and>
               (\<exists>s3. (run e [Start (Suc i), OutDone (Suc i) t2 rnd2,
                               FetchSettled (Suc i) t3 rnds2 outcome2, InDone (Suc i)] s2 = Some s3 \<or>
                      run e [Start (Suc i), OutDone (Suc i) t2 rnd2, InDone (Suc i)] s2 = Some s3) \<and>
                     phaseAt s3 (Suc i) = Resolved))"
proof -
  let ?s1 = "setPhase i AnimatingIn (s\<lparr>gal := loadPhotos_settle t rnds outcome h off (gal s)\<rparr>)"
  let ?s2 = "setPhase i Resolved (?s1\<lparr>gal := animateIn (gal ?s1)\<rparr>)"
  have "\<forall>a b. a < b \<and> b < length (slideQueue s) \<and> snd (slideQueue s ! b) \<noteq> Queued
           \<longrightarrow> snd (slideQueue s ! a) = Resolved"
    using run_ordered [OF assms(1)] by simp
  then have ord: "\<And>a b. a < b \<Longrightarrow> b < length (slideQueue s) \<Longrightarrow> phaseAt s b \<noteq> Queued
           \<Longrightarrow> phaseAt s a = Resolved"
    unfolding phaseAt_def by blast
  have 1: "step e (FetchSettled i t rnds outcome) s = Some ?s1"
    using assms(2,3) by simp
  have p1: "phaseAt ?s1 i = AnimatingIn" "length (slideQueue ?s1) = length (slideQueue s)"
    using assms(2) by simp_all
  have 2: "step e (InDone i) ?s1 = Some ?s2"
    using assms(2) p1 by simp
  have p2: "phaseAt ?s2 i = Resolved"
    using assms(2) by simp
  have next_queued: "phaseAt s (Suc i) = Queued" if "Suc i < length (slideQueue s)"
  proof (rule ccontr)
    assume "phaseAt s (Suc i) \<noteq> Queued"
    then have "phaseAt s i = Resolved" using ord [of i "Suc i"] that by simp
    then show False using assms(3) by simp
  qed
  have 3: "canStart ?s2 (Suc i)" if "Suc i < length (slideQueue ?s2)"
    using that next_queued assms(2)
    by (simp add: canStart_def phaseAt_def setPhase_def)
  have 4: "\<exists>s3. (run e [Start (Suc i), OutDone (Suc i) t2 rnd2,
                               FetchSettled (Suc i) t3 rnds2 outcome2, InDone (Suc i)] ?s2 = Some s3 \<or>
                      run e [Start (Suc i), OutDone (Suc i) t2 rnd2, InDone (Suc i)] ?s2 = Some s3) \<and>
                     phaseAt s3 (Suc i) = Resolved"
    if "Suc i < length (slideQueue ?s2)"
    by (rule job_runs_to_resolution [OF 3 [OF that]])
  have g1: "gal ?s1 = loadPhotos_settle t rnds outcome h off (gal s)"
    by (simp add: setPhase_def)
  show ?thesis
    using 1 g1 p1(1) 2 p2 3 4 by (intro exI [of _ ?s1] exI [of _ ?s2]) blast
qed

theorem fetch_failure_does_not_block_witness:
  "\<exists>s s1 s2 s3. run prodEnv twoClicks (startApp prodEnv 0 [] initialGallery) = Some s \<and>
       step prodEnv (FetchSettled 0 9 (\<lambda>i. []) (Rejected AbortError)) s = Some s1 \<and>
       step prodEnv (InDone 0) s1 = Some s2 \<and> phaseAt s2 0 = Resolved \<and>
       canStart s2 1 \<and>
       (run prodEnv [Start 1, OutDone 1 20 [], FetchSettled 1 30 (\<lambda>i. []) (Response False None),
                     InDone 1] s2 = Some s3 \<or>
        run prodEnv [Start 1, OutDone 1 20 [], InDone 1] s2 = Some s3) \<and>
       phaseAt s3 1 = Resolved"
proof -
  obtain s h where s: "run prodEnv twoClicks (startApp prodEnv 0 [] initialGallery) = Some s"
    "length (slideQueue s) = 2" "phaseAt s 0 = Fetching 0 h"
    using twoClicks_run by blast
  have i: "0 < length (slideQueue s)" using s(2) by simp
  obtain s1 s2 where r: "step prodEnv (FetchSettled 0 9 (\<lambda>i. []) (Rejected AbortError)) s = Some s1"
    "step prodEnv (InDone 0) s1 = Some s2" "phaseAt s2 0 = Resolved"
    "Suc 0 < length (slideQueue s2) \<longrightarrow>
       canStart s2 (Suc 0) \<and>
       (\<exists>s3. (run prodEnv [Start (Suc 0), OutDone (Suc 0) 20 [],
                    FetchSettled (Suc 0) 30 (\<lambda>i. []) (Response False None), InDone (Suc 0)] s2 = Some s3 \<or>
               run prodEnv [Start (Suc 0), OutDone (Suc 0) 20 [], InDone (Suc 0)] s2 = Some s3) \<and>
              phaseAt s3 (Suc 0) = Resolved)"
    using fetch_failure_does_not_block [OF s(1) i s(3), of 9 "\<lambda>i. []" "Rejected AbortError"
        20 "[]" 30 "\<lambda>i. []" "Response False None"]
    by blast
  have "length (slideQueue s2) = 2"
    using r(1,2) s(2,3) i by (auto simp add: setPhase_def phaseAt_def split: if_splits)
  then have "Suc 0 < length (slideQueue s2)" by simp
  then show ?thesis using s(1) r by (simp del: run.simps)
qed

end
